theory Spec2Isabelle
  imports Main "HOL-Library.Word" "HOL-Library.Multiset" "HOL-Library.AList"
begin

section \<open>Blockchain account indexing: the data model\<close>

text \<open>
  The program under study is \<^verbatim>\<open>BlockchainAccountIndexing.cpp\<close>. An \<^verbatim>\<open>int\<close> of the
  source is a 32-bit two's complement integer and is compared as a signed value
  (\<open><s\<close>, \<open>\<le>s\<close>). A \<^verbatim>\<open>chrono::system_clock::time_point\<close> is a 64-bit tick count whose
  overflow plays no role here; it is an unbounded integer, counted in milliseconds.
  The field \<^verbatim>\<open>id\<close> of the source is called \<open>id_acc\<close>, since \<open>id\<close> is the identity
  function of HOL.
\<close>

type_synonym int32 = "32 word"

type_synonym time_point = int

record Account =
  id_acc :: string
  accountType :: string
  data :: "string \<rightharpoonup> int32"
  tokens :: int32
  version :: int32
  callbackTimeMs :: int32

text \<open>The constructor \<^verbatim>\<open>Account(id, accountType, tokens, callbackTimeMs, data, version)\<close>.\<close>

definition newAccount ::
  "string \<Rightarrow> string \<Rightarrow> int32 \<Rightarrow> int32 \<Rightarrow> (string \<rightharpoonup> int32) \<Rightarrow> int32 \<Rightarrow> Account" where
  "newAccount i ty tk cb d v =
     \<lparr>id_acc = i, accountType = ty, data = d, tokens = tk, version = v, callbackTimeMs = cb\<rparr>"

type_synonym AccountKey = "string \<times> int32"

type_synonym callback = "time_point \<times> Account"

text \<open>\<^verbatim>\<open>AccountTimeComparator\<close>: the entry with the later time compares as smaller, which
  makes the standard heap algorithms keep the earliest time in front.\<close>

definition AccountTimeComparator :: "callback \<Rightarrow> callback \<Rightarrow> bool" where
  "AccountTimeComparator a b = (fst a > fst b)"

text \<open>\<^verbatim>\<open>AccountTokenComparator\<close>: \<^verbatim>\<open>a1.tokens > a2.tokens\<close>.\<close>

definition AccountTokenComparator :: "Account \<Rightarrow> Account \<Rightarrow> bool" where
  "AccountTokenComparator a1 a2 = (tokens a2 <s tokens a1)"

text \<open>The comparison \<^verbatim>\<open>fireCallbacks\<close> gets when it calls \<^verbatim>\<open>std::pop_heap\<close> with no
  comparator: \<^verbatim>\<open>operator<\<close> of \<^verbatim>\<open>std::pair\<close>, lexicographic, over the time and
  \<^verbatim>\<open>Account::operator<\<close> (which compares the tokens).\<close>

definition callback_less :: "callback \<Rightarrow> callback \<Rightarrow> bool" where
  "callback_less a b =
     (fst a < fst b \<or> (\<not> fst b < fst a \<and> tokens (snd a) <s tokens (snd b)))"

section \<open>The heap algorithms of the standard library\<close>

text \<open>
  \<^verbatim>\<open>std::push_heap\<close> and \<^verbatim>\<open>std::pop_heap\<close> are not part of the repository; the Makefile
  builds with \<^verbatim>\<open>g++\<close>, so they are modelled as libstdc++ implements them
  (\<^verbatim>\<open>bits/stl_heap.h\<close>), over a list for the vector. The program calls them on ranges that
  are not heaps for the comparator passed; the library code is memory safe there and the
  model computes what it computes. \<open>cmp\<close> is the comparator (\<^verbatim>\<open>__comp\<close>).

  \<open>gnu_push_heap\<close> is \<^verbatim>\<open>std::__push_heap\<close>: the hole moves up while the parent compares
  smaller than the value.
\<close>

function gnu_push_heap :: "('a \<Rightarrow> 'a \<Rightarrow> bool) \<Rightarrow> 'a list \<Rightarrow> nat \<Rightarrow> nat \<Rightarrow> 'a \<Rightarrow> 'a list" where
  "gnu_push_heap cmp xs holeIndex topIndex val =
     (let parent = (holeIndex - 1) div 2 in
      if holeIndex > topIndex \<and> cmp (xs ! parent) val
      then gnu_push_heap cmp (xs[holeIndex := xs ! parent]) parent topIndex val
      else xs[holeIndex := val])"
  by pat_completeness auto
termination
  by (relation "measure (\<lambda>(cmp, xs, holeIndex, topIndex, val). holeIndex)") auto

declare gnu_push_heap.simps [simp del]

text \<open>\<^verbatim>\<open>std::push_heap(first, last, comp)\<close>: the last element is the value pushed. The
  program never calls it on an empty range.\<close>

definition push_heap :: "('a \<Rightarrow> 'a \<Rightarrow> bool) \<Rightarrow> 'a list \<Rightarrow> 'a list" where
  "push_heap cmp xs = gnu_push_heap cmp xs (length xs - 1) 0 (last xs)"

text \<open>The first loop of \<^verbatim>\<open>std::__adjust_heap\<close>: the hole (equal to \<open>secondChild\<close> at
  the loop head) moves down to the child that does not compare smaller than its
  sibling.\<close>

function adjust_heap_descend :: "('a \<Rightarrow> 'a \<Rightarrow> bool) \<Rightarrow> 'a list \<Rightarrow> nat \<Rightarrow> nat \<Rightarrow> 'a list \<times> nat" where
  "adjust_heap_descend cmp xs secondChild len =
     (if secondChild < (len - 1) div 2
      then let right = 2 * (secondChild + 1);
               child = (if cmp (xs ! right) (xs ! (right - 1)) then right - 1 else right)
           in adjust_heap_descend cmp (xs[secondChild := xs ! child]) child len
      else (xs, secondChild))"
  by pat_completeness auto
termination
  by (relation "measure (\<lambda>(cmp, xs, secondChild, len). len - secondChild)") auto

declare adjust_heap_descend.simps [simp del]

text \<open>\<^verbatim>\<open>std::__adjust_heap\<close>: after the loop, a last node with a single child is
  handled, and the value is pushed up from the hole.\<close>

definition gnu_adjust_heap :: "('a \<Rightarrow> 'a \<Rightarrow> bool) \<Rightarrow> 'a list \<Rightarrow> nat \<Rightarrow> nat \<Rightarrow> 'a \<Rightarrow> 'a list" where
  "gnu_adjust_heap cmp xs holeIndex len val =
     (let (xs1, secondChild) = adjust_heap_descend cmp xs holeIndex len;
          (xs2, hole) =
             (if even len \<and> secondChild = (len - 2) div 2
              then (xs1[secondChild := xs1 ! (2 * (secondChild + 1) - 1)], 2 * (secondChild + 1) - 1)
              else (xs1, secondChild))
      in gnu_push_heap cmp xs2 hole holeIndex val)"

text \<open>\<^verbatim>\<open>std::pop_heap(first, last, comp)\<close>: with more than one element, the first
  element goes to the last position and the former last element is sifted in from the
  root; otherwise nothing happens.\<close>

definition pop_heap :: "('a \<Rightarrow> 'a \<Rightarrow> bool) \<Rightarrow> 'a list \<Rightarrow> 'a list" where
  "pop_heap cmp xs =
     (if length xs > 1
      then let n = length xs - 1 in gnu_adjust_heap cmp (xs[n := xs ! 0]) 0 n (xs ! n)
      else xs)"

subsection \<open>Both algorithms permute their range\<close>

lemma length_gnu_push_heap [simp]: "length (gnu_push_heap cmp xs h t v) = length xs"
  by (induction cmp xs h t v rule: gnu_push_heap.induct)
     (subst gnu_push_heap.simps, simp add: Let_def)

lemma mset_gnu_push_heap:
  "h < length xs \<Longrightarrow> mset (gnu_push_heap cmp xs h t v) = mset (xs[h := v])"
proof (induction cmp xs h t v rule: gnu_push_heap.induct)
  case (1 cmp xs h t v)
  let ?p = "(h - 1) div 2"
  show ?case
  proof (cases "h > t \<and> cmp (xs ! ?p) v")
    case True
    then have ph: "?p < h" by auto
    with "1.prems" have pl: "?p < length xs" by simp
    have "mset (gnu_push_heap cmp xs h t v) = mset (gnu_push_heap cmp (xs[h := xs ! ?p]) ?p t v)"
      using True by (subst gnu_push_heap.simps) (simp add: Let_def)
    also have "\<dots> = mset ((xs[h := xs ! ?p])[?p := v])"
      using "1.IH"[OF refl True] pl by simp
    also have "\<dots> = mset (xs[h := v])"
      using ph pl "1.prems" by (simp add: mset_update nth_list_update)
    finally show ?thesis .
  next
    case False
    then show ?thesis by (subst gnu_push_heap.simps) (auto simp add: Let_def)
  qed
qed

lemma mset_push_heap: "mset (push_heap cmp xs) = mset xs"
proof (cases "xs = []")
  case True
  then show ?thesis by (simp add: push_heap_def gnu_push_heap.simps[of _ "[]"])
next
  case False
  then have "xs[length xs - 1 := last xs] = xs"
    by (simp add: last_conv_nth)
  with False show ?thesis
    by (simp add: push_heap_def mset_gnu_push_heap)
qed

lemma length_push_heap [simp]: "length (push_heap cmp xs) = length xs"
  by (simp add: push_heap_def)

lemma adjust_heap_descend_props:
  assumes "adjust_heap_descend cmp xs h len = (ys, k)" "h < len" "len \<le> length xs"
  shows "length ys = length xs \<and> k < len \<and> h \<le> k \<and> mset (ys[k := v]) = mset (xs[h := v])
         \<and> (\<forall>i\<ge>len. ys ! i = xs ! i)"
  using assms
proof (induction cmp xs h len arbitrary: ys k rule: adjust_heap_descend.induct)
  case (1 cmp xs sc len)
  show ?case
  proof (cases "sc < (len - 1) div 2")
    case True
    define child where
      "child = (if cmp (xs ! (2 * (sc + 1))) (xs ! (2 * (sc + 1) - 1)) then 2 * (sc + 1) - 1 else 2 * (sc + 1))"
    have cl: "child < len" "sc < child" using True by (auto simp: child_def)
    have rec: "adjust_heap_descend cmp (xs[sc := xs ! child]) child len = (ys, k)"
      using "1.prems"(1) True
      by (subst (asm) adjust_heap_descend.simps) (auto simp: Let_def child_def split: if_splits)
    have IH: "length ys = length (xs[sc := xs ! child]) \<and> k < len \<and> child \<le> k \<and>
          mset (ys[k := v]) = mset ((xs[sc := xs ! child])[child := v]) \<and>
          (\<forall>i\<ge>len. ys ! i = (xs[sc := xs ! child]) ! i)"
      using "1.IH"[OF True refl refl, of ys k] rec cl "1.prems"
      by (simp add: child_def)
    have "mset ((xs[sc := xs ! child])[child := v]) = mset (xs[sc := v])"
      using cl "1.prems" by (simp add: mset_update nth_list_update)
    with IH cl "1.prems" show ?thesis by auto
  next
    case False
    with "1.prems" show ?thesis
      by (subst (asm) adjust_heap_descend.simps) auto
  qed
qed

lemma gnu_adjust_heap_props:
  assumes "len \<le> length xs" "0 < len"
  shows "length (gnu_adjust_heap cmp xs 0 len v) = length xs"
    and "mset (gnu_adjust_heap cmp xs 0 len v) = mset (xs[0 := v])"
proof -
  obtain xs1 sc where d: "adjust_heap_descend cmp xs 0 len = (xs1, sc)"
    by (cases "adjust_heap_descend cmp xs 0 len")
  from adjust_heap_descend_props[OF d \<open>0 < len\<close> \<open>len \<le> length xs\<close>, of v]
  have p: "length xs1 = length xs" "sc < len" "mset (xs1[sc := v]) = mset (xs[0 := v])"
    by auto
  show "length (gnu_adjust_heap cmp xs 0 len v) = length xs"
    using d p by (simp add: gnu_adjust_heap_def)
  show "mset (gnu_adjust_heap cmp xs 0 len v) = mset (xs[0 := v])"
  proof (cases "even len \<and> sc = (len - 2) div 2")
    case False
    then have "gnu_adjust_heap cmp xs 0 len v = gnu_push_heap cmp xs1 sc 0 v"
      using d by (auto simp: gnu_adjust_heap_def)
    then show ?thesis using p assms by (simp add: mset_gnu_push_heap)
  next
    case True
    define c where "c = 2 * (sc + 1) - 1"
    have cl: "c < len" "sc < c" using True \<open>0 < len\<close> by (auto simp: c_def elim!: evenE)
    have "gnu_adjust_heap cmp xs 0 len v = gnu_push_heap cmp (xs1[sc := xs1 ! c]) c 0 v"
      using d True by (simp add: gnu_adjust_heap_def c_def)
    then have "mset (gnu_adjust_heap cmp xs 0 len v) = mset ((xs1[sc := xs1 ! c])[c := v])"
      using cl p assms by (simp add: mset_gnu_push_heap)
    also have "\<dots> = mset (xs1[sc := v])"
      using cl p assms by (simp add: mset_update nth_list_update)
    finally show ?thesis using p by simp
  qed
qed

lemma length_pop_heap [simp]: "length (pop_heap cmp xs) = length xs"
  by (simp add: pop_heap_def Let_def gnu_adjust_heap_props(1))

lemma gnu_push_heap_above: "h < i \<Longrightarrow> gnu_push_heap cmp xs h t v ! i = xs ! i"
proof (induction cmp xs h t v rule: gnu_push_heap.induct)
  case (1 cmp xs h t v)
  show ?case
  proof (cases "h > t \<and> cmp (xs ! ((h - 1) div 2)) v")
    case True
    then have "(h - 1) div 2 < i" using "1.prems" by auto
    with "1.IH"[OF refl True] True "1.prems" show ?thesis
      by (subst gnu_push_heap.simps) (simp add: Let_def)
  next
    case False
    with "1.prems" show ?thesis by (subst gnu_push_heap.simps) (auto simp: Let_def)
  qed
qed

lemma gnu_adjust_heap_above:
  assumes "len \<le> length xs" "0 < len" "len \<le> i"
  shows "gnu_adjust_heap cmp xs 0 len v ! i = xs ! i"
proof -
  obtain xs1 sc where d: "adjust_heap_descend cmp xs 0 len = (xs1, sc)"
    by (cases "adjust_heap_descend cmp xs 0 len")
  from adjust_heap_descend_props[OF d \<open>0 < len\<close> \<open>len \<le> length xs\<close>, of v]
  have p: "length xs1 = length xs" "sc < len" "xs1 ! i = xs ! i"
    using assms by auto
  show ?thesis
  proof (cases "even len \<and> sc = (len - 2) div 2")
    case False
    then have "gnu_adjust_heap cmp xs 0 len v = gnu_push_heap cmp xs1 sc 0 v"
      using d by (auto simp: gnu_adjust_heap_def)
    then show ?thesis using p assms by (simp add: gnu_push_heap_above)
  next
    case True
    define c where "c = 2 * (sc + 1) - 1"
    have cl: "c < len" "sc < c" using True \<open>0 < len\<close> by (auto simp: c_def elim!: evenE)
    have "gnu_adjust_heap cmp xs 0 len v = gnu_push_heap cmp (xs1[sc := xs1 ! c]) c 0 v"
      using d True by (simp add: gnu_adjust_heap_def c_def)
    then show ?thesis using p assms cl by (simp add: gnu_push_heap_above)
  qed
qed

lemma last_pop_heap: "xs \<noteq> [] \<Longrightarrow> last (pop_heap cmp xs) = hd xs"
proof (cases "length xs > 1")
  case True
  assume "xs \<noteq> []"
  let ?n = "length xs - 1"
  have "pop_heap cmp xs ! ?n = (xs[?n := xs ! 0]) ! ?n"
    using True by (simp add: pop_heap_def Let_def gnu_adjust_heap_above)
  moreover have "pop_heap cmp xs \<noteq> []"
    using \<open>xs \<noteq> []\<close> by (metis length_pop_heap length_0_conv)
  ultimately show ?thesis using True \<open>xs \<noteq> []\<close>
    by (simp add: last_conv_nth hd_conv_nth)
next
  case False
  assume "xs \<noteq> []"
  with False have "length xs = 1" by (cases xs) auto
  then show ?thesis by (cases xs) (auto simp: pop_heap_def)
qed

lemma mset_pop_heap: "mset (pop_heap cmp xs) = mset xs"
proof (cases "length xs > 1")
  case True
  let ?n = "length xs - 1"
  have "mset (pop_heap cmp xs) = mset ((xs[?n := xs ! 0])[0 := xs ! ?n])"
    using True by (simp add: pop_heap_def Let_def gnu_adjust_heap_props(2))
  also have "\<dots> = mset xs"
    using True mset_swap[of 0 xs ?n] by (cases xs) auto
  finally show ?thesis .
next
  case False
  then show ?thesis by (simp add: pop_heap_def)
qed

lemma mset_butlast_pop_heap:
  "xs \<noteq> [] \<Longrightarrow> mset (butlast (pop_heap cmp xs)) = mset xs - {#hd xs#}"
proof -
  assume ne: "xs \<noteq> []"
  then have ne': "pop_heap cmp xs \<noteq> []" by (metis length_pop_heap length_0_conv)
  have "mset (pop_heap cmp xs) = add_mset (last (pop_heap cmp xs)) (mset (butlast (pop_heap cmp xs)))"
    using ne' by (metis append_butlast_last_id mset.simps(2) mset_append union_mset_add_mset_right add.right_neutral mset.simps(1))
  then show ?thesis using ne by (simp add: mset_pop_heap last_pop_heap)
qed


subsection \<open>A heap keeps a least element in front\<close>

definition is_heap :: "('a \<Rightarrow> 'a \<Rightarrow> bool) \<Rightarrow> 'a list \<Rightarrow> bool" where
  "is_heap cmp xs = (\<forall>i. 0 < i \<and> i < length xs \<longrightarrow> \<not> cmp (xs ! ((i - 1) div 2)) (xs ! i))"

lemma gnu_push_heap_is_heap:
  fixes key :: "'a \<Rightarrow> int"
  shows "(\<forall>a b. cmp a b \<longleftrightarrow> key b < key a) \<Longrightarrow> h < length xs \<Longrightarrow>
    (\<forall>i. 0 < i \<and> i < length xs \<and> i \<noteq> h \<and> (i - 1) div 2 \<noteq> h \<longrightarrow> key (xs ! ((i - 1) div 2)) \<le> key (xs ! i)) \<Longrightarrow>
    (\<forall>i. 0 < i \<and> i < length xs \<and> (i - 1) div 2 = h \<longrightarrow>
          key v \<le> key (xs ! i) \<and> (0 < h \<longrightarrow> key (xs ! ((h - 1) div 2)) \<le> key (xs ! i))) \<Longrightarrow>
    is_heap cmp (gnu_push_heap cmp xs h 0 v)"
proof (induction cmp xs h "0::nat" v rule: gnu_push_heap.induct)
  case (1 cmp xs h v)
  let ?p = "(h - 1) div 2"
  note a = "1.prems"(3)[rule_format]
  note b = "1.prems"(4)[rule_format]
  note c = "1.prems"(1)[rule_format]
  note hl = "1.prems"(2)
  show ?case
  proof (cases "0 < h \<and> cmp (xs ! ?p) v")
    case True
    then have ph: "?p < h" and vp: "key v < key (xs ! ?p)" by (auto simp: c)
    let ?xs = "xs[h := xs ! ?p]"
    have eq: "gnu_push_heap cmp xs h 0 v = gnu_push_heap cmp ?xs ?p 0 v"
      using True by (subst gnu_push_heap.simps) (simp add: Let_def)
    have pl: "?p < length ?xs" using ph hl by simp
    have a': "\<forall>i. 0 < i \<and> i < length ?xs \<and> i \<noteq> ?p \<and> (i - 1) div 2 \<noteq> ?p \<longrightarrow>
                 key (?xs ! ((i - 1) div 2)) \<le> key (?xs ! i)"
    proof (intro allI impI)
      fix i assume i: "0 < i \<and> i < length ?xs \<and> i \<noteq> ?p \<and> (i - 1) div 2 \<noteq> ?p"
      then have ih: "i \<noteq> h" by auto
      show "key (?xs ! ((i - 1) div 2)) \<le> key (?xs ! i)"
      proof (cases "(i - 1) div 2 = h")
        case True
        with i ih b[of i] \<open>0 < h \<and> _\<close> hl show ?thesis by simp
      next
        case False
        with i ih a[of i] show ?thesis by simp
      qed
    qed
    have b': "\<forall>i. 0 < i \<and> i < length ?xs \<and> (i - 1) div 2 = ?p \<longrightarrow>
          key v \<le> key (?xs ! i) \<and> (0 < ?p \<longrightarrow> key (?xs ! ((?p - 1) div 2)) \<le> key (?xs ! i))"
    proof (intro allI impI)
      fix i assume i: "0 < i \<and> i < length ?xs \<and> (i - 1) div 2 = ?p"
      have pp: "0 < ?p \<Longrightarrow> key (xs ! ((?p - 1) div 2)) \<le> key (xs ! ?p)"
        using a[of ?p] ph hl by auto
      have pph: "(?p - 1) div 2 \<noteq> h" using ph by auto
      show "key v \<le> key (?xs ! i) \<and> (0 < ?p \<longrightarrow> key (?xs ! ((?p - 1) div 2)) \<le> key (?xs ! i))"
      proof (cases "i = h")
        case True
        with vp pp pph hl show ?thesis by simp
      next
        case False
        then have "key (xs ! ?p) \<le> key (xs ! i)"
          using a[of i] i ph by auto
        with False vp pp pph i show ?thesis by auto
      qed
    qed
    from "1.hyps"[OF refl True "1.prems"(1) pl a' b'] eq show ?thesis by simp
  next
    case False
    then have eq: "gnu_push_heap cmp xs h 0 v = xs[h := v]"
      by (subst gnu_push_heap.simps) (auto simp: Let_def)
    have stop: "0 < h \<Longrightarrow> key (xs ! ?p) \<le> key v"
      using False by (auto simp: c)
    show ?thesis
      unfolding eq is_heap_def
    proof (intro allI impI)
      fix i assume i: "0 < i \<and> i < length (xs[h := v])"
      show "\<not> cmp (xs[h := v] ! ((i - 1) div 2)) (xs[h := v] ! i)"
      proof (cases "i = h")
        case True
        then have "(i - 1) div 2 \<noteq> h" using i by auto
        with True i stop show ?thesis by (simp add: c)
      next
        case ih: False
        show ?thesis
        proof (cases "(i - 1) div 2 = h")
          case True
          with ih i b[of i] hl show ?thesis by (simp add: c)
        next
          case False
          with ih i a[of i] show ?thesis by (simp add: c)
        qed
      qed
    qed
  qed
qed

lemma push_heap_is_heap:
  fixes key :: "'a \<Rightarrow> int"
  assumes cmp: "\<And>a b. cmp a b \<longleftrightarrow> key b < key a"
    and h: "is_heap cmp xs"
  shows "is_heap cmp (push_heap cmp (xs @ [x]))"
proof -
  have a: "\<forall>i. 0 < i \<and> i < length (xs @ [x]) \<and> i \<noteq> length xs \<and> (i - 1) div 2 \<noteq> length xs \<longrightarrow>
       key ((xs @ [x]) ! ((i - 1) div 2)) \<le> key ((xs @ [x]) ! i)"
  proof (intro allI impI)
    fix i assume i: "0 < i \<and> i < length (xs @ [x]) \<and> i \<noteq> length xs \<and> (i - 1) div 2 \<noteq> length xs"
    then have il: "i < length xs" by simp
    then have "(i - 1) div 2 < length xs" by auto
    with il i h show "key ((xs @ [x]) ! ((i - 1) div 2)) \<le> key ((xs @ [x]) ! i)"
      by (simp add: is_heap_def nth_append cmp not_less)
  qed
  have b: "\<forall>i. 0 < i \<and> i < length (xs @ [x]) \<and> (i - 1) div 2 = length xs \<longrightarrow>
          key x \<le> key ((xs @ [x]) ! i) \<and>
          (0 < length xs \<longrightarrow> key ((xs @ [x]) ! ((length xs - 1) div 2)) \<le> key ((xs @ [x]) ! i))"
    by auto
  show ?thesis
    using gnu_push_heap_is_heap[of cmp key "length xs" "xs @ [x]" x, OF _ _ a b] cmp
    by (simp add: push_heap_def)
qed

lemma is_heap_front:
  fixes key :: "'a \<Rightarrow> int"
  assumes cmp: "\<And>a b. cmp a b \<longleftrightarrow> key b < key a"
    and h: "is_heap cmp xs"
  shows "i < length xs \<Longrightarrow> key (xs ! 0) \<le> key (xs ! i)"
proof (induction i rule: less_induct)
  case (less i)
  show ?case
  proof (cases "i = 0")
    case True
    then show ?thesis by simp
  next
    case False
    then have p: "(i - 1) div 2 < i" by auto
    with less.prems have "key (xs ! 0) \<le> key (xs ! ((i - 1) div 2))"
      using less.IH[of "(i - 1) div 2"] by simp
    moreover have "key (xs ! ((i - 1) div 2)) \<le> key (xs ! i)"
      using h False less.prems by (simp add: is_heap_def cmp not_less)
    ultimately show ?thesis by simp
  qed
qed

section \<open>The program\<close>

text \<open>
  Undefined behaviour of the source is a value of the model: an operation that would
  index the vector out of its bounds, read through a reference to a destroyed element,
  or pop an empty queue returns \<open>Inl\<close> of the fault, and every caller passes it on.
  What the program prints is not part of the state, but for the events of
  \<^verbatim>\<open>fireCallbacks\<close>, which it returns.
\<close>

datatype fault = VectorOutOfRange | DanglingReference | PopEmptyQueue

subsection \<open>\<^verbatim>\<open>std::priority_queue<Account, vector<Account>, AccountTokenComparator>\<close>\<close>

text \<open>The adaptor keeps its vector as a heap: \<^verbatim>\<open>push\<close> is \<^verbatim>\<open>push_back\<close> and
  \<^verbatim>\<open>push_heap\<close>, \<^verbatim>\<open>pop\<close> is \<^verbatim>\<open>pop_heap\<close> and \<^verbatim>\<open>pop_back\<close>, \<^verbatim>\<open>top\<close> is
  \<^verbatim>\<open>front\<close>. \<open>pq_pop\<close> and \<open>pq_top\<close> are called on non-empty queues only; the one
  unguarded \<^verbatim>\<open>pop\<close> of the source has its own fault branch below.\<close>

type_synonym token_queue = "Account list"

definition pq_push :: "token_queue \<Rightarrow> Account \<Rightarrow> token_queue" where
  "pq_push pq a = push_heap AccountTokenComparator (pq @ [a])"

definition pq_pop :: "token_queue \<Rightarrow> token_queue" where
  "pq_pop pq = butlast (pop_heap AccountTokenComparator pq)"

definition pq_top :: "token_queue \<Rightarrow> Account" where
  "pq_top pq = hd pq"

lemma length_pq_pop [simp]: "length (pq_pop pq) = length pq - 1"
  by (simp add: pq_pop_def)

subsection \<open>\<^verbatim>\<open>CallbackManager\<close>\<close>

record CallbackManager =
  callbacks :: "callback list"
  indexMap :: "string \<rightharpoonup> nat"

definition updateIndexMap :: "CallbackManager \<Rightarrow> Account \<Rightarrow> nat \<Rightarrow> CallbackManager" where
  "updateIndexMap cm account index = cm\<lparr>indexMap := (indexMap cm)(id_acc account \<mapsto> index)\<rparr>"

text \<open>\<^verbatim>\<open>removeAtIndex\<close>. The test \<^verbatim>\<open>index != callbacks.size() - 1\<close> is taken in
  \<^verbatim>\<open>size_t\<close>: on an empty vector the right-hand side wraps to the largest value and
  differs from every index, which the comparison over \<open>int\<close> below reproduces. In that
  branch \<^verbatim>\<open>callbacks[index]\<close> must be inside the vector.\<close>

definition removeAtIndex :: "CallbackManager \<Rightarrow> nat \<Rightarrow> fault + CallbackManager" where
  "removeAtIndex cm index =
     (if int index \<noteq> int (length (callbacks cm)) - 1 then
        if index < length (callbacks cm) then
          let n = length (callbacks cm) - 1;
              swapped = (callbacks cm)[index := callbacks cm ! n, n := callbacks cm ! index];
              cm1 = updateIndexMap (cm\<lparr>callbacks := swapped\<rparr>) (snd (swapped ! index)) index;
              popped = butlast (pop_heap AccountTimeComparator (callbacks cm1))
          in Inr (cm1\<lparr>callbacks := push_heap AccountTimeComparator popped\<rparr>)
        else Inl VectorOutOfRange
      else Inr (cm\<lparr>callbacks := butlast (callbacks cm)\<rparr>))"

definition scheduleCallback :: "CallbackManager \<Rightarrow> Account \<Rightarrow> time_point \<Rightarrow> CallbackManager" where
  "scheduleCallback cm account callbackTime =
     (let cm1 = cm\<lparr>callbacks := callbacks cm @ [(callbackTime, account)]\<rparr>;
          cm2 = updateIndexMap cm1 account (length (callbacks cm1) - 1)
      in cm2\<lparr>callbacks := push_heap AccountTimeComparator (callbacks cm2)\<rparr>)"

definition cancelCallback :: "CallbackManager \<Rightarrow> Account \<Rightarrow> fault + CallbackManager" where
  "cancelCallback cm account =
     (case indexMap cm (id_acc account) of
        None \<Rightarrow> Inr cm
      | Some index \<Rightarrow> removeAtIndex (cm\<lparr>indexMap := (indexMap cm)(id_acc account := None)\<rparr>) index)"

text \<open>\<^verbatim>\<open>fireCallbacks\<close>. \<^verbatim>\<open>account\<close> is a reference to the first slot of the vector,
  and \<^verbatim>\<open>indexMap.erase(account.id)\<close> reads it after \<^verbatim>\<open>pop_heap\<close> and \<^verbatim>\<open>pop_back\<close>:
  it reads the element then in front, or a destroyed element when the vector has become
  empty. The events are the pairs of identifier and version printed before the pop.\<close>

function fireCallbacks ::
  "CallbackManager \<Rightarrow> time_point \<Rightarrow> fault + ((string \<times> int32) list \<times> CallbackManager)" where
  "fireCallbacks cm currentTime =
     (if callbacks cm \<noteq> [] \<and> fst (hd (callbacks cm)) \<le> currentTime then
        let fired = (id_acc (snd (hd (callbacks cm))), version (snd (hd (callbacks cm))));
            rest = butlast (pop_heap callback_less (callbacks cm))
        in if rest = [] then Inl DanglingReference
           else (case fireCallbacks
                        (cm\<lparr>callbacks := rest,
                            indexMap := (indexMap cm)(id_acc (snd (hd rest)) := None)\<rparr>)
                        currentTime of
                   Inl e \<Rightarrow> Inl e
                 | Inr (events, cm') \<Rightarrow> Inr (fired # events, cm'))
      else Inr ([], cm))"
  by pat_completeness auto
termination
  by (relation "measure (\<lambda>(cm, currentTime). length (callbacks cm))") auto

declare fireCallbacks.simps [simp del]

subsection \<open>\<^verbatim>\<open>AccountIndexer\<close>\<close>

text \<open>\<^verbatim>\<open>indexedAccounts\<close> is iterated by the query, in an order the standard leaves
  open. The model is an association list with distinct keys and iterates in list order;
  no theorem below depends on that order.\<close>

record AccountIndexer =
  highestTokenAccounts :: "string \<rightharpoonup> token_queue"
  indexedAccounts :: "(AccountKey \<times> Account) list"

definition indexAccount :: "AccountIndexer \<Rightarrow> Account \<Rightarrow> AccountIndexer" where
  "indexAccount ix account =
     ix\<lparr>indexedAccounts := AList.update (id_acc account, version account) account (indexedAccounts ix)\<rparr>"

definition removeAccount :: "AccountIndexer \<Rightarrow> Account \<Rightarrow> AccountIndexer" where
  "removeAccount ix account =
     ix\<lparr>indexedAccounts := AList.delete (id_acc account, version account) (indexedAccounts ix)\<rparr>"

subsection \<open>\<^verbatim>\<open>AccountManager\<close>\<close>

record AccountManager =
  callbackManager :: CallbackManager
  accountIndexer :: AccountIndexer

text \<open>The default constructor.\<close>

definition newAccountManager :: AccountManager where
  "newAccountManager =
     \<lparr>callbackManager = \<lparr>callbacks = [], indexMap = Map.empty\<rparr>,
      accountIndexer = \<lparr>highestTokenAccounts = Map.empty, indexedAccounts = []\<rparr>\<rparr>"

text \<open>The loop \<^verbatim>\<open>while (!pq.empty()) { temp.push(pq.top()); pq.pop(); }\<close> that ends
  both queue helpers.\<close>

function moveAll :: "token_queue \<Rightarrow> token_queue \<Rightarrow> token_queue" where
  "moveAll pq temp = (if pq \<noteq> [] then moveAll (pq_pop pq) (pq_push temp (pq_top pq)) else temp)"
  by pat_completeness auto
termination
  by (relation "measure (\<lambda>(pq, temp). length pq)") (auto simp: Suc_leI)

declare moveAll.simps [simp del]

text \<open>The first loop of \<^verbatim>\<open>insertAccountIntoPriorityQueue\<close>; it returns \<open>pq\<close> and
  \<open>temp\<close> as the loop leaves them.\<close>

function moveWhileMoreTokens :: "token_queue \<Rightarrow> token_queue \<Rightarrow> Account \<Rightarrow> token_queue \<times> token_queue" where
  "moveWhileMoreTokens pq temp account =
     (if pq \<noteq> [] \<and> tokens account <s tokens (pq_top pq)
      then moveWhileMoreTokens (pq_pop pq) (pq_push temp (pq_top pq)) account
      else (pq, temp))"
  by pat_completeness auto
termination
  by (relation "measure (\<lambda>(pq, temp, account). length pq)") (auto simp: Suc_leI)

declare moveWhileMoreTokens.simps [simp del]

definition insertAccountIntoPriorityQueue :: "token_queue \<Rightarrow> Account \<Rightarrow> token_queue" where
  "insertAccountIntoPriorityQueue pq account =
     (let (pq1, temp1) = moveWhileMoreTokens pq [] account
      in moveAll pq1 (pq_push temp1 account))"

text \<open>The first loop of \<^verbatim>\<open>removeAccountFromPriorityQueue\<close>.\<close>

function moveWhileOtherId :: "token_queue \<Rightarrow> token_queue \<Rightarrow> Account \<Rightarrow> token_queue \<times> token_queue" where
  "moveWhileOtherId pq temp account =
     (if pq \<noteq> [] \<and> id_acc (pq_top pq) \<noteq> id_acc account
      then moveWhileOtherId (pq_pop pq) (pq_push temp (pq_top pq)) account
      else (pq, temp))"
  by pat_completeness auto
termination
  by (relation "measure (\<lambda>(pq, temp, account). length pq)") (auto simp: Suc_leI)

declare moveWhileOtherId.simps [simp del]

text \<open>\<^verbatim>\<open>removeAccountFromPriorityQueue\<close>: the \<^verbatim>\<open>pq.pop()\<close> after the first loop is not
  guarded, and pops an empty queue when no element has the identifier.\<close>

definition removeAccountFromPriorityQueue :: "token_queue \<Rightarrow> Account \<Rightarrow> fault + token_queue" where
  "removeAccountFromPriorityQueue pq account =
     (let (pq1, temp1) = moveWhileOtherId pq [] account
      in if pq1 = [] then Inl PopEmptyQueue else Inr (moveAll (pq_pop pq1) temp1))"

text \<open>The search loop of \<^verbatim>\<open>ingestAccountUpdate\<close> over the copy \<^verbatim>\<open>jt\<close> of the queue; it
  returns \<^verbatim>\<open>accountFound\<close> and \<^verbatim>\<open>jt\<close> as the loop leaves them.\<close>

function findAccount :: "token_queue \<Rightarrow> Account \<Rightarrow> bool \<times> token_queue" where
  "findAccount jt account =
     (if jt \<noteq> [] then
        if id_acc (pq_top jt) = id_acc account then (True, jt)
        else findAccount (pq_pop jt) account
      else (False, jt))"
  by pat_completeness auto
termination
  by (relation "measure (\<lambda>(jt, account). length jt)") (auto simp: Suc_leI)

declare findAccount.simps [simp del]

text \<open>The second half of \<^verbatim>\<open>ingestAccountUpdate\<close> (from \<^verbatim>\<open>indexAccount\<close> on), which every
  update that is not rejected runs: index, insert into the queue of the account type
  (created empty by \<^verbatim>\<open>operator[]\<close> when absent), pop when more than three are held,
  schedule. \<open>now\<close> is the clock read and \<open>randomDelay\<close> the result of
  \<^verbatim>\<open>getRandomDelay\<close>; the sum of the two \<^verbatim>\<open>int\<close>s wraps as the machine addition
  does.\<close>

definition acceptAccount :: "AccountManager \<Rightarrow> Account \<Rightarrow> time_point \<Rightarrow> int32 \<Rightarrow> AccountManager" where
  "acceptAccount am account now randomDelay =
     (let ix1 = indexAccount (accountIndexer am) account;
          highestTokensForType =
            (case highestTokenAccounts ix1 (accountType account) of None \<Rightarrow> [] | Some pq \<Rightarrow> pq);
          inserted = insertAccountIntoPriorityQueue highestTokensForType account;
          kept = (if length inserted > 3 then pq_pop inserted else inserted);
          ix2 = ix1\<lparr>highestTokenAccounts := (highestTokenAccounts ix1)(accountType account \<mapsto> kept)\<rparr>;
          callbackTime = now + sint (callbackTimeMs account + randomDelay)
      in \<lparr>callbackManager = scheduleCallback (callbackManager am) account callbackTime,
          accountIndexer = ix2\<rparr>)"

definition ingestAccountUpdate ::
  "AccountManager \<Rightarrow> Account \<Rightarrow> time_point \<Rightarrow> int32 \<Rightarrow> fault + AccountManager" where
  "ingestAccountUpdate am account now randomDelay =
     (case highestTokenAccounts (accountIndexer am) (accountType account) of
        None \<Rightarrow> Inr (acceptAccount am account now randomDelay)
      | Some tokenAccounts \<Rightarrow>
          let (accountFound, jt) = findAccount tokenAccounts account in
          if accountFound then
            if version account \<le>s version (pq_top jt) then Inr am
            else
              (case cancelCallback (callbackManager am) (pq_top jt) of
                 Inl e \<Rightarrow> Inl e
               | Inr cm1 \<Rightarrow>
                   (case removeAccountFromPriorityQueue tokenAccounts account of
                      Inl e \<Rightarrow> Inl e
                    | Inr removed \<Rightarrow>
                        let ix1 = removeAccount (accountIndexer am) (pq_top jt);
                            ix2 = ix1\<lparr>highestTokenAccounts :=
                                       (highestTokenAccounts ix1)(accountType account \<mapsto> removed)\<rparr>
                        in Inr (acceptAccount \<lparr>callbackManager = cm1, accountIndexer = ix2\<rparr>
                                  account now randomDelay)))
          else Inr (acceptAccount am account now randomDelay))"

text \<open>The loop of \<^verbatim>\<open>processAccountUpdates\<close> over the parsed updates: each is ingested
  and followed by a sweep of the callbacks. An update comes with what its iteration
  reads from the environment: the clock at ingestion, the random delay, and the clock at
  the sweep.\<close>

fun processAccountUpdates ::
  "AccountManager \<Rightarrow> (Account \<times> time_point \<times> int32 \<times> time_point) list \<Rightarrow> fault + AccountManager" where
  "processAccountUpdates am [] = Inr am"
| "processAccountUpdates am ((account, now, randomDelay, sweepTime) # accountUpdates) =
     (case ingestAccountUpdate am account now randomDelay of
        Inl e \<Rightarrow> Inl e
      | Inr am1 \<Rightarrow>
          (case fireCallbacks (callbackManager am1) sweepTime of
             Inl e \<Rightarrow> Inl e
           | Inr (events, cm) \<Rightarrow>
               processAccountUpdates (am1\<lparr>callbackManager := cm\<rparr>) accountUpdates))"

text \<open>\<^verbatim>\<open>searchAndFilterAccounts\<close>: the loop over \<^verbatim>\<open>indexedAccounts\<close>. The default
  arguments of the source are the empty string, \<open>INT_MIN\<close> and \<open>INT_MAX\<close>: a call that
  leaves an argument out passes that value.\<close>

fun filterAccounts :: "(AccountKey \<times> Account) list \<Rightarrow> string \<Rightarrow> int32 \<Rightarrow> int32 \<Rightarrow> Account list" where
  "filterAccounts [] accountType' minTokens maxTokens = []"
| "filterAccounts ((key, account) # rest) accountType' minTokens maxTokens =
     (if accountType' \<noteq> [] \<and> accountType account \<noteq> accountType'
      then filterAccounts rest accountType' minTokens maxTokens
      else if tokens account <s minTokens \<or> maxTokens <s tokens account
      then filterAccounts rest accountType' minTokens maxTokens
      else account # filterAccounts rest accountType' minTokens maxTokens)"

definition INT_MIN :: int32 where
  "INT_MIN = - (2 ^ 31)"

definition INT_MAX :: int32 where
  "INT_MAX = 2 ^ 31 - 1"

definition searchAndFilterAccounts ::
  "AccountManager \<Rightarrow> string \<Rightarrow> int32 \<Rightarrow> int32 \<Rightarrow> Account list" where
  "searchAndFilterAccounts am accountType' minTokens maxTokens =
     filterAccounts (indexedAccounts (accountIndexer am)) accountType' minTokens maxTokens"

section \<open>Facts about the queue helpers\<close>

lemma mset_pq_push: "mset (pq_push pq a) = add_mset a (mset pq)"
  by (simp add: pq_push_def mset_push_heap)

lemma mset_pq_pop: "pq \<noteq> [] \<Longrightarrow> mset (pq_pop pq) = mset pq - {#pq_top pq#}"
  by (simp add: pq_pop_def pq_top_def mset_butlast_pop_heap)

lemma pq_top_in: "pq \<noteq> [] \<Longrightarrow> pq_top pq \<in># mset pq"
  by (simp add: pq_top_def)

lemma mset_pq_pop_top: "pq \<noteq> [] \<Longrightarrow> add_mset (pq_top pq) (mset (pq_pop pq)) = mset pq"
  using pq_top_in[of pq] by (simp add: mset_pq_pop insert_DiffM)

lemma mset_moveAll: "mset (moveAll pq temp) = mset pq + mset temp"
proof (induction pq temp rule: moveAll.induct)
  case (1 pq temp)
  show ?case
  proof (cases "pq = []")
    case True
    then show ?thesis by (subst moveAll.simps) simp
  next
    case False
    have "mset (moveAll pq temp) = mset (pq_pop pq) + mset (pq_push temp (pq_top pq))"
      using False "1.IH" by (subst moveAll.simps) simp
    also have "\<dots> = mset pq + mset temp"
      using mset_pq_pop_top[OF False] by (simp add: mset_pq_push)
    finally show ?thesis .
  qed
qed

lemma mset_moveWhileMoreTokens:
  "moveWhileMoreTokens pq temp a = (pq1, temp1) \<Longrightarrow> mset pq1 + mset temp1 = mset pq + mset temp"
proof (induction pq temp a rule: moveWhileMoreTokens.induct)
  case (1 pq temp a)
  show ?case
  proof (cases "pq \<noteq> [] \<and> tokens a <s tokens (pq_top pq)")
    case True
    then have "moveWhileMoreTokens (pq_pop pq) (pq_push temp (pq_top pq)) a = (pq1, temp1)"
      using "1.prems" by (subst (asm) moveWhileMoreTokens.simps) simp
    from "1.IH"[OF True this]
    have "mset pq1 + mset temp1 = mset (pq_pop pq) + mset (pq_push temp (pq_top pq))" .
    also have "\<dots> = mset pq + mset temp"
      using mset_pq_pop_top[of pq] True by (simp add: mset_pq_push)
    finally show ?thesis .
  next
    case False
    then show ?thesis using "1.prems" by (subst (asm) moveWhileMoreTokens.simps) auto
  qed
qed

lemma mset_insertAccountIntoPriorityQueue:
  "mset (insertAccountIntoPriorityQueue pq a) = add_mset a (mset pq)"
proof -
  obtain pq1 temp1 where m: "moveWhileMoreTokens pq [] a = (pq1, temp1)"
    by (cases "moveWhileMoreTokens pq [] a")
  from mset_moveWhileMoreTokens[OF m] show ?thesis
    by (simp add: insertAccountIntoPriorityQueue_def m mset_moveAll mset_pq_push)
qed

lemma moveWhileOtherId_props:
  "moveWhileOtherId pq temp a = (pq1, temp1) \<Longrightarrow>
     mset pq1 + mset temp1 = mset pq + mset temp \<and>
     (pq1 \<noteq> [] \<longrightarrow> id_acc (pq_top pq1) = id_acc a) \<and>
     (\<forall>x \<in># mset temp1 - mset temp. id_acc x \<noteq> id_acc a)"
proof (induction pq temp a arbitrary: pq1 temp1 rule: moveWhileOtherId.induct)
  case (1 pq temp a)
  show ?case
  proof (cases "pq \<noteq> [] \<and> id_acc (pq_top pq) \<noteq> id_acc a")
    case True
    then have "moveWhileOtherId (pq_pop pq) (pq_push temp (pq_top pq)) a = (pq1, temp1)"
      using "1.prems" by (subst (asm) moveWhileOtherId.simps) simp
    from "1.IH"[OF True this]
    have IH: "mset pq1 + mset temp1 = mset (pq_pop pq) + mset (pq_push temp (pq_top pq))"
      "pq1 \<noteq> [] \<longrightarrow> id_acc (pq_top pq1) = id_acc a"
      "\<forall>x \<in># mset temp1 - mset (pq_push temp (pq_top pq)). id_acc x \<noteq> id_acc a"
      by auto
    have e: "mset pq1 + mset temp1 = mset pq + mset temp"
      using IH(1) mset_pq_pop_top[of pq] True by (simp add: mset_pq_push)
    have "\<forall>x \<in># mset temp1 - mset temp. id_acc x \<noteq> id_acc a"
    proof
      fix x assume x: "x \<in># mset temp1 - mset temp"
      show "id_acc x \<noteq> id_acc a"
      proof (cases "x \<in># mset temp1 - add_mset (pq_top pq) (mset temp)")
        case True
        then show ?thesis using IH(3) by (simp add: mset_pq_push)
      next
        case False
        have "mset temp1 - mset temp \<subseteq># add_mset (pq_top pq) (mset temp1 - add_mset (pq_top pq) (mset temp))"
          by (simp add: subseteq_mset_def) 
        with x have "x \<in># add_mset (pq_top pq) (mset temp1 - add_mset (pq_top pq) (mset temp))"
          by (rule_tac mset_subset_eqD)
        with False have "x = pq_top pq" by auto
        with True show ?thesis by simp
      qed
    qed
    with e IH(2) show ?thesis by simp
  next
    case False
    then show ?thesis using "1.prems" by (subst (asm) moveWhileOtherId.simps) auto
  qed
qed

lemma removeAccountFromPriorityQueue_found:
  assumes "id_acc a \<in> id_acc ` set pq"
  shows "\<exists>removed old. removeAccountFromPriorityQueue pq a = Inr removed \<and> old \<in># mset pq \<and>
            id_acc old = id_acc a \<and> mset removed = mset pq - {#old#}"
proof -
  obtain pq1 temp1 where m: "moveWhileOtherId pq [] a = (pq1, temp1)"
    by (cases "moveWhileOtherId pq [] a")
  from moveWhileOtherId_props[OF m]
  have p: "mset pq1 + mset temp1 = mset pq" "pq1 \<noteq> [] \<longrightarrow> id_acc (pq_top pq1) = id_acc a"
    "\<forall>x \<in> set temp1. id_acc x \<noteq> id_acc a"
    by auto
  have ne: "pq1 \<noteq> []"
  proof
    assume "pq1 = []"
    with p(1) have "mset temp1 = mset pq" by simp
    then have "set temp1 = set pq" by (rule mset_eq_setD)
    with p(3) assms show False by auto
  qed
  have top: "pq_top pq1 \<in># mset pq"
    using pq_top_in[OF ne] p(1) by (metis union_iff)
  have "mset (moveAll (pq_pop pq1) temp1) = mset pq - {#pq_top pq1#}"
    using mset_pq_pop_top[OF ne] p(1) by (simp add: mset_moveAll) (metis add_mset_add_single add_mset_remove_trivial union_mset_add_mset_left)
  with ne top p(2) show ?thesis
    by (auto simp: removeAccountFromPriorityQueue_def m)
qed

lemma findAccount_props:
  "findAccount jt a = (found, jt') \<Longrightarrow>
     (found \<longleftrightarrow> id_acc a \<in> id_acc ` set jt) \<and>
     (found \<longrightarrow> jt' \<noteq> [] \<and> pq_top jt' \<in> set jt \<and> id_acc (pq_top jt') = id_acc a)"
proof (induction jt a arbitrary: found jt' rule: findAccount.induct)
  case (1 jt a)
  show ?case
  proof (cases "jt = []")
    case True
    then show ?thesis using "1.prems" by (subst (asm) findAccount.simps) auto
  next
    case False
    show ?thesis
    proof (cases "id_acc (pq_top jt) = id_acc a")
      case True
      with False have "found" "jt' = jt"
        using "1.prems" by (subst (asm) findAccount.simps, simp)+
      with True False pq_top_in[OF False] show ?thesis by (auto intro: rev_image_eqI)
    next
      case ne: False
      with False have "findAccount (pq_pop jt) a = (found, jt')"
        using "1.prems" by (subst (asm) findAccount.simps) simp
      from "1.IH"[OF False ne this]
      have IH: "found \<longleftrightarrow> id_acc a \<in> id_acc ` set (pq_pop jt)"
        "found \<longrightarrow> jt' \<noteq> [] \<and> pq_top jt' \<in> set (pq_pop jt) \<and> id_acc (pq_top jt') = id_acc a"
        by auto
      have s: "set jt = insert (pq_top jt) (set (pq_pop jt))"
        using mset_pq_pop_top[OF False] by (metis set_mset_add_mset_insert set_mset_mset)
      with IH ne show ?thesis by auto
    qed
  qed
qed


section \<open>What one update does\<close>

lemma distinct_map_mset_cong:
  "mset xs = mset ys \<Longrightarrow> distinct (map f xs) = distinct (map f ys)"
proof -
  assume "mset xs = mset ys"
  then have "mset (map f xs) = mset (map f ys)" by simp
  then show ?thesis by (rule mset_eq_imp_distinct_iff)
qed

lemma moveWhileOtherId_fst: "fst (moveWhileOtherId pq temp a) = snd (findAccount pq a)"
proof (induction pq a arbitrary: temp rule: findAccount.induct)
  case (1 jt a)
  show ?case
  proof (cases "jt \<noteq> [] \<and> id_acc (pq_top jt) \<noteq> id_acc a")
    case True
    then have "fst (moveWhileOtherId jt temp a) =
        fst (moveWhileOtherId (pq_pop jt) (pq_push temp (pq_top jt)) a)"
      by (subst moveWhileOtherId.simps) simp
    also have "\<dots> = snd (findAccount (pq_pop jt) a)"
      using "1.IH" True by simp
    also have "\<dots> = snd (findAccount jt a)"
      using True by (subst (2) findAccount.simps) simp
    finally show ?thesis .
  next
    case False
    then show ?thesis
      by (subst moveWhileOtherId.simps, subst findAccount.simps) auto
  qed
qed

lemma removeAccountFromPriorityQueue_top:
  assumes "findAccount pq a = (True, jt)"
  shows "\<exists>removed. removeAccountFromPriorityQueue pq a = Inr removed \<and>
            mset removed = mset pq - {#pq_top jt#}"
proof -
  obtain pq1 temp1 where m: "moveWhileOtherId pq [] a = (pq1, temp1)"
    by (cases "moveWhileOtherId pq [] a")
  have pq1: "pq1 = jt" using moveWhileOtherId_fst[of pq "[]" a] m assms by simp
  from findAccount_props[OF assms] have ne: "jt \<noteq> []" by simp
  from moveWhileOtherId_props[OF m] have p: "mset pq1 + mset temp1 = mset pq" by simp
  have "mset (moveAll (pq_pop pq1) temp1) = mset (pq_pop pq1) + mset temp1"
    by (simp add: mset_moveAll)
  also have "\<dots> = (mset pq1 - {#pq_top pq1#}) + mset temp1"
    using ne pq1 by (simp add: mset_pq_pop)
  also have "\<dots> = (mset pq1 + mset temp1) - {#pq_top pq1#}"
    using pq_top_in[of pq1] ne pq1 by simp
  finally have "mset (moveAll (pq_pop pq1) temp1) = mset pq - {#pq_top jt#}"
    using p pq1 by simp
  with ne pq1 show ?thesis
    by (simp add: removeAccountFromPriorityQueue_def m)
qed

text \<open>The queue an accepted account leaves for its type: the account inserted, and the
  front popped when more than three are then held.\<close>

lemma acceptAccount_sel:
  "callbackManager (acceptAccount am a now rd) =
     scheduleCallback (callbackManager am) a (now + sint (callbackTimeMs a + rd))"
  "indexedAccounts (accountIndexer (acceptAccount am a now rd)) =
     AList.update (id_acc a, version a) a (indexedAccounts (accountIndexer am))"
  "highestTokenAccounts (accountIndexer (acceptAccount am a now rd)) =
     (highestTokenAccounts (accountIndexer am))(accountType a \<mapsto>
        (let inserted = insertAccountIntoPriorityQueue
               (case highestTokenAccounts (accountIndexer am) (accountType a) of
                  None \<Rightarrow> [] | Some pq \<Rightarrow> pq) a
         in if length inserted > 3 then pq_pop inserted else inserted))"
  by (simp_all add: acceptAccount_def indexAccount_def Let_def)

lemma ingest_not_ranked:
  assumes "\<forall>pq. highestTokenAccounts (accountIndexer am) (accountType a) = Some pq \<longrightarrow>
              id_acc a \<notin> id_acc ` set pq"
  shows "ingestAccountUpdate am a now rd = Inr (acceptAccount am a now rd)"
proof (cases "highestTokenAccounts (accountIndexer am) (accountType a)")
  case None
  then show ?thesis by (simp add: ingestAccountUpdate_def)
next
  case (Some pq)
  obtain found jt where f: "findAccount pq a = (found, jt)" by (cases "findAccount pq a")
  from findAccount_props[OF f] assms Some have "\<not> found" by simp
  with Some f show ?thesis by (simp add: ingestAccountUpdate_def)
qed

lemma ingest_ranked_stale:
  assumes "highestTokenAccounts (accountIndexer am) (accountType a) = Some pq"
    and "findAccount pq a = (True, jt)"
    and "version a \<le>s version (pq_top jt)"
  shows "ingestAccountUpdate am a now rd = Inr am"
  using assms by (simp add: ingestAccountUpdate_def)

lemma ingest_ranked_newer:
  assumes "highestTokenAccounts (accountIndexer am) (accountType a) = Some pq"
    and "findAccount pq a = (True, jt)"
    and "\<not> version a \<le>s version (pq_top jt)"
  shows "ingestAccountUpdate am a now rd =
     (case cancelCallback (callbackManager am) (pq_top jt) of
        Inl e \<Rightarrow> Inl e
      | Inr cm1 \<Rightarrow>
          (case removeAccountFromPriorityQueue pq a of
             Inl e \<Rightarrow> Inl e
           | Inr removed \<Rightarrow>
               Inr (acceptAccount
                     \<lparr>callbackManager = cm1,
                      accountIndexer = (removeAccount (accountIndexer am) (pq_top jt))
                        \<lparr>highestTokenAccounts :=
                           (highestTokenAccounts (accountIndexer am))(accountType a \<mapsto> removed)\<rparr>\<rparr>
                     a now rd)))"
  using assms by (auto simp: ingestAccountUpdate_def removeAccount_def Let_def split: sum.splits)

text \<open>The three ways an update can end without a fault.\<close>

lemma ingest_cases:
  assumes "ingestAccountUpdate am a now rd = Inr am'"
  obtains
    (fresh) "\<forall>pq. highestTokenAccounts (accountIndexer am) (accountType a) = Some pq \<longrightarrow>
                id_acc a \<notin> id_acc ` set pq"
            "am' = acceptAccount am a now rd"
  | (stale) pq old where
      "highestTokenAccounts (accountIndexer am) (accountType a) = Some pq"
      "old \<in> set pq" "id_acc old = id_acc a" "version a \<le>s version old" "am' = am"
  | (newer) pq old cm1 removed where
      "highestTokenAccounts (accountIndexer am) (accountType a) = Some pq"
      "old \<in> set pq" "id_acc old = id_acc a" "\<not> version a \<le>s version old"
      "cancelCallback (callbackManager am) old = Inr cm1"
      "mset removed = mset pq - {#old#}"
      "am' = acceptAccount
               \<lparr>callbackManager = cm1,
                accountIndexer = (removeAccount (accountIndexer am) old)
                  \<lparr>highestTokenAccounts :=
                     (highestTokenAccounts (accountIndexer am))(accountType a \<mapsto> removed)\<rparr>\<rparr>
               a now rd"
proof (cases "highestTokenAccounts (accountIndexer am) (accountType a)")
  case None
  with assms fresh show ?thesis by (simp add: ingestAccountUpdate_def)
next
  case (Some pq)
  obtain found jt where f: "findAccount pq a = (found, jt)" by (cases "findAccount pq a")
  note fp = findAccount_props[OF f]
  show ?thesis
  proof (cases found)
    case False
    with fp Some have "\<forall>pq. highestTokenAccounts (accountIndexer am) (accountType a) = Some pq \<longrightarrow>
                id_acc a \<notin> id_acc ` set pq" by simp
    moreover from this have "am' = acceptAccount am a now rd"
      using ingest_not_ranked[of am a now rd] assms by simp
    ultimately show ?thesis by (rule fresh)
  next
    case True
    with fp have old: "pq_top jt \<in> set pq" "id_acc (pq_top jt) = id_acc a" by auto
    from True f have f': "findAccount pq a = (True, jt)" by simp
    show ?thesis
    proof (cases "version a \<le>s version (pq_top jt)")
      case le: True
      have "am' = am" using ingest_ranked_stale[OF Some f' le, of now rd] assms by simp
      with Some old le show ?thesis by (intro stale[of pq "pq_top jt"]) auto
    next
      case gt: False
      obtain removed where r: "removeAccountFromPriorityQueue pq a = Inr removed"
        "mset removed = mset pq - {#pq_top jt#}"
        using removeAccountFromPriorityQueue_top[OF f'] by auto
      from assms ingest_ranked_newer[OF Some f' gt, of now rd] r(1)
      obtain cm1 where c: "cancelCallback (callbackManager am) (pq_top jt) = Inr cm1"
        and am': "am' = acceptAccount
               \<lparr>callbackManager = cm1,
                accountIndexer = (removeAccount (accountIndexer am) (pq_top jt))
                  \<lparr>highestTokenAccounts :=
                     (highestTokenAccounts (accountIndexer am))(accountType a \<mapsto> removed)\<rparr>\<rparr>
               a now rd"
        by (auto split: sum.splits)
      from Some old gt c r(2) am' show ?thesis by (rule newer)
    qed
  qed
qed

section \<open>Running the program on concrete inputs\<close>

text \<open>The recursive functions are unfolded by conditional equations, one per way
  through a loop body, so that the simplifier runs the program on a concrete input and
  never unfolds a call whose guard it has not decided.\<close>

lemma newAccount_sel [simp]:
  "id_acc (newAccount i ty tk cb d v) = i"
  "accountType (newAccount i ty tk cb d v) = ty"
  "data (newAccount i ty tk cb d v) = d"
  "tokens (newAccount i ty tk cb d v) = tk"
  "version (newAccount i ty tk cb d v) = v"
  "callbackTimeMs (newAccount i ty tk cb d v) = cb"
  by (simp_all add: newAccount_def)

lemma gnu_push_heap_up:
  "topIndex < holeIndex \<Longrightarrow> cmp (xs ! ((holeIndex - 1) div 2)) val \<Longrightarrow>
     gnu_push_heap cmp xs holeIndex topIndex val =
     gnu_push_heap cmp (xs[holeIndex := xs ! ((holeIndex - 1) div 2)]) ((holeIndex - 1) div 2) topIndex val"
  by (subst gnu_push_heap.simps) (simp add: Let_def)

lemma gnu_push_heap_stop:
  "\<not> (topIndex < holeIndex \<and> cmp (xs ! ((holeIndex - 1) div 2)) val) \<Longrightarrow>
     gnu_push_heap cmp xs holeIndex topIndex val = xs[holeIndex := val]"
  by (subst gnu_push_heap.simps) (auto simp add: Let_def)

lemma adjust_heap_descend_left:
  "secondChild < (len - 1) div 2 \<Longrightarrow>
   cmp (xs ! (2 * (secondChild + 1))) (xs ! (2 * (secondChild + 1) - 1)) \<Longrightarrow>
     adjust_heap_descend cmp xs secondChild len =
     adjust_heap_descend cmp (xs[secondChild := xs ! (2 * (secondChild + 1) - 1)]) (2 * (secondChild + 1) - 1) len"
  by (subst adjust_heap_descend.simps) (simp add: Let_def)

lemma adjust_heap_descend_right:
  "secondChild < (len - 1) div 2 \<Longrightarrow>
   \<not> cmp (xs ! (2 * (secondChild + 1))) (xs ! (2 * (secondChild + 1) - 1)) \<Longrightarrow>
     adjust_heap_descend cmp xs secondChild len =
     adjust_heap_descend cmp (xs[secondChild := xs ! (2 * (secondChild + 1))]) (2 * (secondChild + 1)) len"
  by (subst adjust_heap_descend.simps) (simp add: Let_def)

lemma adjust_heap_descend_stop:
  "\<not> secondChild < (len - 1) div 2 \<Longrightarrow> adjust_heap_descend cmp xs secondChild len = (xs, secondChild)"
  by (subst adjust_heap_descend.simps) simp

lemma moveAll_Nil: "moveAll [] temp = temp"
  by (subst moveAll.simps) simp

lemma moveAll_Cons: "moveAll (a # pq) temp = moveAll (pq_pop (a # pq)) (pq_push temp (pq_top (a # pq)))"
  by (subst moveAll.simps) simp

lemma moveWhileMoreTokens_move:
  "pq \<noteq> [] \<Longrightarrow> tokens account <s tokens (pq_top pq) \<Longrightarrow>
     moveWhileMoreTokens pq temp account =
     moveWhileMoreTokens (pq_pop pq) (pq_push temp (pq_top pq)) account"
  by (subst moveWhileMoreTokens.simps) simp

lemma moveWhileMoreTokens_stop:
  "\<not> (pq \<noteq> [] \<and> tokens account <s tokens (pq_top pq)) \<Longrightarrow>
     moveWhileMoreTokens pq temp account = (pq, temp)"
  by (subst moveWhileMoreTokens.simps) auto

lemma moveWhileOtherId_move:
  "pq \<noteq> [] \<Longrightarrow> id_acc (pq_top pq) \<noteq> id_acc account \<Longrightarrow>
     moveWhileOtherId pq temp account =
     moveWhileOtherId (pq_pop pq) (pq_push temp (pq_top pq)) account"
  by (subst moveWhileOtherId.simps) simp

lemma moveWhileOtherId_stop:
  "\<not> (pq \<noteq> [] \<and> id_acc (pq_top pq) \<noteq> id_acc account) \<Longrightarrow>
     moveWhileOtherId pq temp account = (pq, temp)"
  by (subst moveWhileOtherId.simps) auto

lemma findAccount_Nil: "findAccount [] account = (False, [])"
  by (subst findAccount.simps) simp

lemma findAccount_hit:
  "jt \<noteq> [] \<Longrightarrow> id_acc (pq_top jt) = id_acc account \<Longrightarrow> findAccount jt account = (True, jt)"
  by (subst findAccount.simps) simp

lemma findAccount_miss:
  "jt \<noteq> [] \<Longrightarrow> id_acc (pq_top jt) \<noteq> id_acc account \<Longrightarrow>
     findAccount jt account = findAccount (pq_pop jt) account"
  by (subst findAccount.simps) simp

lemma fireCallbacks_stop:
  "\<not> (callbacks cm \<noteq> [] \<and> fst (hd (callbacks cm)) \<le> currentTime) \<Longrightarrow>
     fireCallbacks cm currentTime = Inr ([], cm)"
  by (subst fireCallbacks.simps) auto

lemma fireCallbacks_fire:
  "callbacks cm \<noteq> [] \<Longrightarrow> fst (hd (callbacks cm)) \<le> currentTime \<Longrightarrow>
     fireCallbacks cm currentTime =
       (if butlast (pop_heap callback_less (callbacks cm)) = [] then Inl DanglingReference
        else (case fireCallbacks
                     (cm\<lparr>callbacks := butlast (pop_heap callback_less (callbacks cm)),
                         indexMap := (indexMap cm)
                           (id_acc (snd (hd (butlast (pop_heap callback_less (callbacks cm))))) := None)\<rparr>)
                     currentTime of
                Inl e \<Rightarrow> Inl e
              | Inr (events, cm') \<Rightarrow>
                  Inr ((id_acc (snd (hd (callbacks cm))), version (snd (hd (callbacks cm)))) # events, cm')))"
  by (subst fireCallbacks.simps) (simp add: Let_def)

lemmas heap_eval =
  push_heap_def pop_heap_def gnu_adjust_heap_def gnu_push_heap_up gnu_push_heap_stop
  adjust_heap_descend_left adjust_heap_descend_right adjust_heap_descend_stop
  AccountTimeComparator_def AccountTokenComparator_def callback_less_def Let_def

lemmas queue_eval =
  pq_push_def pq_pop_def pq_top_def moveAll_Nil moveAll_Cons
  moveWhileMoreTokens_move moveWhileMoreTokens_stop moveWhileOtherId_move moveWhileOtherId_stop
  findAccount_Nil findAccount_hit findAccount_miss
  insertAccountIntoPriorityQueue_def removeAccountFromPriorityQueue_def

lemma removeAtIndex_last:
  "int index = int (length (callbacks cm)) - 1 \<Longrightarrow>
     removeAtIndex cm index = Inr (cm\<lparr>callbacks := butlast (callbacks cm)\<rparr>)"
  by (simp add: removeAtIndex_def)

lemma removeAtIndex_outside:
  "int index \<noteq> int (length (callbacks cm)) - 1 \<Longrightarrow> \<not> index < length (callbacks cm) \<Longrightarrow>
     removeAtIndex cm index = Inl VectorOutOfRange"
  by (simp add: removeAtIndex_def)

lemma removeAtIndex_inside:
  "int index \<noteq> int (length (callbacks cm)) - 1 \<Longrightarrow> index < length (callbacks cm) \<Longrightarrow>
     removeAtIndex cm index =
       Inr \<lparr>callbacks =
              push_heap AccountTimeComparator
                (butlast (pop_heap AccountTimeComparator
                   ((callbacks cm)[index := callbacks cm ! (length (callbacks cm) - 1),
                                   length (callbacks cm) - 1 := callbacks cm ! index]))),
            indexMap = (indexMap cm)(id_acc (snd (callbacks cm ! (length (callbacks cm) - 1))) \<mapsto> index)\<rparr>"
  by (cases cm) (auto simp: removeAtIndex_def updateIndexMap_def Let_def nth_list_update)

lemma scheduleCallback_eval:
  "scheduleCallback cm account callbackTime =
     \<lparr>callbacks = push_heap AccountTimeComparator (callbacks cm @ [(callbackTime, account)]),
      indexMap = (indexMap cm)(id_acc account \<mapsto> length (callbacks cm))\<rparr>"
  by (cases cm) (simp add: scheduleCallback_def updateIndexMap_def Let_def)

lemmas callback_eval =
  removeAtIndex_last removeAtIndex_outside removeAtIndex_inside scheduleCallback_eval cancelCallback_def
  fireCallbacks_stop fireCallbacks_fire

lemmas ingest_eval =
  indexAccount_def removeAccount_def acceptAccount_def ingestAccountUpdate_def newAccountManager_def
  word_sle_eq word_sless_alt


section \<open>The query\<close>

lemma filterAccounts_filter:
  "filterAccounts al ty lo hi =
     filter (\<lambda>a. (ty = [] \<or> accountType a = ty) \<and> lo \<le>s tokens a \<and> tokens a \<le>s hi) (map snd al)"
  by (induction al ty lo hi rule: filterAccounts.induct) (auto simp: word_sle_eq word_sless_alt)

lemma INT_MIN_le: "INT_MIN \<le>s t"
  using sint_ge[of t] by (simp add: word_sle_eq INT_MIN_def)

lemma le_INT_MAX: "t \<le>s INT_MAX"
  using sint_lt[of t] by (simp add: word_sle_eq INT_MAX_def)

text \<open>
  Claim C9. \<^verbatim>\<open>searchAndFilterAccounts\<close> returns exactly the indexed snapshots whose
  account type is the one asked for (every snapshot, when the account type is left
  at its default, the empty string) and whose tokens lie between the two bounds,
  inclusive, in the signed order. A bound left at its default (\<open>INT_MIN\<close>, \<open>INT_MAX\<close>)
  excludes nothing, and with all three defaults the result is every snapshot.
\<close>

theorem searchAndFilterAccounts_exact:
  "searchAndFilterAccounts am ty lo hi =
     filter (\<lambda>a. (ty = [] \<or> accountType a = ty) \<and> lo \<le>s tokens a \<and> tokens a \<le>s hi)
       (map snd (indexedAccounts (accountIndexer am))) \<and>
   searchAndFilterAccounts am [] lo hi =
     filter (\<lambda>a. lo \<le>s tokens a \<and> tokens a \<le>s hi) (map snd (indexedAccounts (accountIndexer am))) \<and>
   searchAndFilterAccounts am ty INT_MIN hi =
     filter (\<lambda>a. (ty = [] \<or> accountType a = ty) \<and> tokens a \<le>s hi)
       (map snd (indexedAccounts (accountIndexer am))) \<and>
   searchAndFilterAccounts am ty lo INT_MAX =
     filter (\<lambda>a. (ty = [] \<or> accountType a = ty) \<and> lo \<le>s tokens a)
       (map snd (indexedAccounts (accountIndexer am))) \<and>
   searchAndFilterAccounts am [] INT_MIN INT_MAX = map snd (indexedAccounts (accountIndexer am))"
  by (simp add: searchAndFilterAccounts_def filterAccounts_filter INT_MIN_le le_INT_MAX)

text \<open>An instance, in the manner of the fifth test of \<^verbatim>\<open>main\<close>: five indexed
  accounts, queried for the users holding between 200 and 400 tokens.\<close>

definition filterFixture :: AccountManager where
  "filterFixture =
     \<lparr>callbackManager = \<lparr>callbacks = [], indexMap = Map.empty\<rparr>,
      accountIndexer =
        \<lparr>highestTokenAccounts = Map.empty,
         indexedAccounts =
           [((''id1'', 1), newAccount ''id1'' ''user'' 100 0 Map.empty 1),
            ((''id2'', 1), newAccount ''id2'' ''admin'' 300 0 Map.empty 1),
            ((''id3'', 1), newAccount ''id3'' ''user'' 300 0 Map.empty 1),
            ((''id4'', 1), newAccount ''id4'' ''user'' 400 0 Map.empty 1),
            ((''id5'', 1), newAccount ''id5'' ''user'' 500 0 Map.empty 1)]\<rparr>\<rparr>"

theorem searchAndFilterAccounts_exact_witness:
  "searchAndFilterAccounts filterFixture ''user'' 200 400 =
     [newAccount ''id3'' ''user'' 300 0 Map.empty 1, newAccount ''id4'' ''user'' 400 0 Map.empty 1]"
  using searchAndFilterAccounts_exact [of filterFixture "''user''" 200 400]
  by (simp add: filterFixture_def)

section \<open>The callback manager\<close>

lemma cancelCallback_absent:
  "indexMap cm (id_acc account) = None \<Longrightarrow> cancelCallback cm account = Inr cm"
  by (simp add: cancelCallback_def)

text \<open>The state after scheduling \<open>A\<close> and then \<open>B\<close>, both for time 5.\<close>

definition pendingAB :: CallbackManager where
  "pendingAB =
     \<lparr>callbacks = [(5, newAccount ''A'' ''user'' 10 0 Map.empty 1),
                   (5, newAccount ''B'' ''user'' 10 0 Map.empty 1)],
      indexMap = [''A'' \<mapsto> 0, ''B'' \<mapsto> 1]\<rparr>"

lemma pendingAB_scheduled:
  "scheduleCallback
     (scheduleCallback \<lparr>callbacks = [], indexMap = Map.empty\<rparr>
        (newAccount ''A'' ''user'' 10 0 Map.empty 1) 5)
     (newAccount ''B'' ''user'' 10 0 Map.empty 1) 5 = pendingAB"
  by (simp add: pendingAB_def scheduleCallback_def updateIndexMap_def Let_def)
     (simp add: heap_eval)

text \<open>
  Claim C6 (the code departs from it). Cancelling an identifier with no entry in
  \<^verbatim>\<open>indexMap\<close> changes nothing (\<open>cancelCallback_absent\<close>). With \<open>A\<close> and \<open>B\<close> pending
  for the same time, cancelling \<open>A\<close> removes the entry of \<open>B\<close> and keeps that of \<open>A\<close>:
  \<^verbatim>\<open>removeAtIndex\<close> swaps \<open>A\<close> to the back, and the \<^verbatim>\<open>pop_heap\<close> that follows moves the
  front element, now \<open>B\<close>, to the back, where \<^verbatim>\<open>pop_back\<close> removes it. Afterwards
  \<^verbatim>\<open>indexMap\<close> has an entry for \<open>B\<close>, which is gone, and none for \<open>A\<close>, which is
  pending.
\<close>

theorem cancelCallback_removes_other_entry:
  "cancelCallback pendingAB (newAccount ''A'' ''user'' 10 0 Map.empty 1) =
     Inr \<lparr>callbacks = [(5, newAccount ''A'' ''user'' 10 0 Map.empty 1)],
          indexMap = [''B'' \<mapsto> 0]\<rparr>"
  by (simp add: pendingAB_def cancelCallback_def removeAtIndex_def updateIndexMap_def Let_def)
     (simp add: heap_eval)

text \<open>The state after scheduling \<open>X\<close> for time 1, \<open>Y\<close> for time 5 and \<open>Z\<close> for
  time 2: a heap for \<^verbatim>\<open>AccountTimeComparator\<close>, with \<^verbatim>\<open>indexMap\<close> exact.\<close>

definition pendingXYZ :: CallbackManager where
  "pendingXYZ =
     \<lparr>callbacks = [(1, newAccount ''X'' ''user'' 10 0 Map.empty 1),
                   (5, newAccount ''Y'' ''user'' 10 0 Map.empty 1),
                   (2, newAccount ''Z'' ''user'' 10 0 Map.empty 1)],
      indexMap = [''X'' \<mapsto> 0, ''Y'' \<mapsto> 1, ''Z'' \<mapsto> 2]\<rparr>"

lemma pendingXYZ_scheduled:
  "scheduleCallback
     (scheduleCallback
        (scheduleCallback \<lparr>callbacks = [], indexMap = Map.empty\<rparr>
           (newAccount ''X'' ''user'' 10 0 Map.empty 1) 1)
        (newAccount ''Y'' ''user'' 10 0 Map.empty 1) 5)
     (newAccount ''Z'' ''user'' 10 0 Map.empty 1) 2 = pendingXYZ"
  by (simp add: pendingXYZ_def callback_eval heap_eval numeral_2_eq_2)

text \<open>
  Claim C7 (the code departs from it). At time 3 the entries of \<open>X\<close> (time 1) and
  \<open>Z\<close> (time 2) are due. \<^verbatim>\<open>fireCallbacks\<close> fires \<open>X\<close> only: its \<^verbatim>\<open>pop_heap\<close> has no
  comparator and sifts by \<^verbatim>\<open>operator<\<close>, which brings the latest entry \<open>Y\<close> to the
  front, and the loop stops there with \<open>Z\<close> still pending. The entry erased from
  \<^verbatim>\<open>indexMap\<close> is that of \<open>Y\<close>, the element in front after the pop, and the entry of
  the fired \<open>X\<close> stays.
\<close>

theorem fireCallbacks_leaves_due_entry:
  "fireCallbacks pendingXYZ 3 =
     Inr ([(''X'', 1)],
          \<lparr>callbacks = [(5, newAccount ''Y'' ''user'' 10 0 Map.empty 1),
                        (2, newAccount ''Z'' ''user'' 10 0 Map.empty 1)],
           indexMap = [''X'' \<mapsto> 0, ''Z'' \<mapsto> 2]\<rparr>)"
  by (simp add: pendingXYZ_def callback_eval heap_eval)

text \<open>Firing the only pending entry reads the identifier of a destroyed element.\<close>

lemma fireCallbacks_last_entry:
  "fireCallbacks \<lparr>callbacks = [(1, newAccount ''X'' ''user'' 10 0 Map.empty 1)],
                  indexMap = [''X'' \<mapsto> 0]\<rparr> 1 = Inl DanglingReference"
  by (simp add: callback_eval heap_eval)

section \<open>Updates and the three structures\<close>

lemma scheduleCallback_sel:
  "mset (callbacks (scheduleCallback cm a t)) = add_mset (t, a) (mset (callbacks cm))"
  "length (callbacks (scheduleCallback cm a t)) = Suc (length (callbacks cm))"
  "indexMap (scheduleCallback cm a t) = (indexMap cm)(id_acc a \<mapsto> length (callbacks cm))"
  by (simp_all add: scheduleCallback_def updateIndexMap_def Let_def mset_push_heap)

text \<open>Four accounts of one type have been processed, with 10, 20, 30 and 40 tokens, every
  callback due at time 100: \<open>A\<close>, which holds the fewest tokens, has left the queue of
  its type and is still indexed and still has its callback pending.\<close>

definition afterABCD :: AccountManager where
  "afterABCD =
     \<lparr>callbackManager =
        \<lparr>callbacks = [(100, newAccount ''A'' ''user'' 10 100 Map.empty 1),
                      (100, newAccount ''B'' ''user'' 20 100 Map.empty 1),
                      (100, newAccount ''C'' ''user'' 30 100 Map.empty 1),
                      (100, newAccount ''D'' ''user'' 40 100 Map.empty 1)],
         indexMap = [''A'' \<mapsto> 0, ''B'' \<mapsto> 1, ''C'' \<mapsto> 2, ''D'' \<mapsto> 3]\<rparr>,
      accountIndexer =
        \<lparr>highestTokenAccounts =
           [''user'' \<mapsto> [newAccount ''B'' ''user'' 20 100 Map.empty 1,
                          newAccount ''C'' ''user'' 30 100 Map.empty 1,
                          newAccount ''D'' ''user'' 40 100 Map.empty 1]],
         indexedAccounts =
           [((''A'', 1), newAccount ''A'' ''user'' 10 100 Map.empty 1),
            ((''B'', 1), newAccount ''B'' ''user'' 20 100 Map.empty 1),
            ((''C'', 1), newAccount ''C'' ''user'' 30 100 Map.empty 1),
            ((''D'', 1), newAccount ''D'' ''user'' 40 100 Map.empty 1)]\<rparr>\<rparr>"

lemma afterABCD_processed:
  "processAccountUpdates newAccountManager
     [(newAccount ''A'' ''user'' 10 100 Map.empty 1, 0, 0, 0),
      (newAccount ''B'' ''user'' 20 100 Map.empty 1, 0, 0, 0),
      (newAccount ''C'' ''user'' 30 100 Map.empty 1, 0, 0, 0),
      (newAccount ''D'' ''user'' 40 100 Map.empty 1, 0, 0, 0)] = Inr afterABCD"
  by (simp add: afterABCD_def ingest_eval queue_eval callback_eval heap_eval)
     (simp add: eval_nat_numeral)

text \<open>The same state after one more update: \<open>A\<close> again, with version 0.\<close>

definition afterABCDA :: AccountManager where
  "afterABCDA =
     \<lparr>callbackManager =
        \<lparr>callbacks = [(100, newAccount ''A'' ''user'' 10 100 Map.empty 1),
                      (100, newAccount ''B'' ''user'' 20 100 Map.empty 1),
                      (100, newAccount ''C'' ''user'' 30 100 Map.empty 1),
                      (100, newAccount ''D'' ''user'' 40 100 Map.empty 1),
                      (100, newAccount ''A'' ''user'' 10 100 Map.empty 0)],
         indexMap = [''B'' \<mapsto> 1, ''C'' \<mapsto> 2, ''D'' \<mapsto> 3, ''A'' \<mapsto> 4]\<rparr>,
      accountIndexer =
        \<lparr>highestTokenAccounts =
           [''user'' \<mapsto> [newAccount ''B'' ''user'' 20 100 Map.empty 1,
                          newAccount ''C'' ''user'' 30 100 Map.empty 1,
                          newAccount ''D'' ''user'' 40 100 Map.empty 1]],
         indexedAccounts =
           [((''A'', 1), newAccount ''A'' ''user'' 10 100 Map.empty 1),
            ((''B'', 1), newAccount ''B'' ''user'' 20 100 Map.empty 1),
            ((''C'', 1), newAccount ''C'' ''user'' 30 100 Map.empty 1),
            ((''D'', 1), newAccount ''D'' ''user'' 40 100 Map.empty 1),
            ((''A'', 0), newAccount ''A'' ''user'' 10 100 Map.empty 0)]\<rparr>\<rparr>"

lemma afterABCDA_ingested:
  "ingestAccountUpdate afterABCD (newAccount ''A'' ''user'' 10 100 Map.empty 0) 0 0 = Inr afterABCDA"
  by (simp add: afterABCD_def afterABCDA_def ingest_eval queue_eval callback_eval heap_eval)
     (simp add: eval_nat_numeral)

text \<open>
  Claim C3 (the code departs from it). In the state reached by the updates \<open>A\<close>, \<open>B\<close>,
  \<open>C\<close>, \<open>D\<close> from the initial state the index holds \<open>A\<close> at version 1 and the
  callback of that snapshot is pending. An update of \<open>A\<close> for the same account type with
  version 0 is not rejected: it is indexed and a callback is scheduled for it, so the
  index and the callback manager change. \<^verbatim>\<open>ingestAccountUpdate\<close> looks for the held
  version in the queue of the account type only, and \<open>A\<close> has been evicted from it.
\<close>

theorem stale_update_of_evicted_identifier_is_accepted:
  "processAccountUpdates newAccountManager
     [(newAccount ''A'' ''user'' 10 100 Map.empty 1, 0, 0, 0),
      (newAccount ''B'' ''user'' 20 100 Map.empty 1, 0, 0, 0),
      (newAccount ''C'' ''user'' 30 100 Map.empty 1, 0, 0, 0),
      (newAccount ''D'' ''user'' 40 100 Map.empty 1, 0, 0, 0)] = Inr afterABCD \<and>
   map_of (indexedAccounts (accountIndexer afterABCD)) (''A'', 1) =
     Some (newAccount ''A'' ''user'' 10 100 Map.empty 1) \<and>
   version (newAccount ''A'' ''user'' 10 100 Map.empty 0) \<le>s
     version (newAccount ''A'' ''user'' 10 100 Map.empty 1) \<and>
   ingestAccountUpdate afterABCD (newAccount ''A'' ''user'' 10 100 Map.empty 0) 0 0 = Inr afterABCDA \<and>
   map fst (indexedAccounts (accountIndexer afterABCDA)) =
     [(''A'', 1), (''B'', 1), (''C'', 1), (''D'', 1), (''A'', 0)] \<and>
   length (callbacks (callbackManager afterABCD)) = 4 \<and>
   length (callbacks (callbackManager afterABCDA)) = 5"
  using afterABCD_processed afterABCDA_ingested
  by (simp add: afterABCD_def afterABCDA_def word_sle_eq)

text \<open>
  The rejection works where the identifier is in the queue of the update's account type:
  when the update's version is at most the version of every entry of the identifier
  there, \<^verbatim>\<open>ingestAccountUpdate\<close> returns with the whole state as it was.
\<close>

lemma stale_update_changes_nothing:
  assumes "highestTokenAccounts (accountIndexer am) (accountType a) = Some pq"
    and "\<exists>old \<in> set pq. id_acc old = id_acc a"
    and "\<forall>old \<in> set pq. id_acc old = id_acc a \<longrightarrow> version a \<le>s version old"
  shows "ingestAccountUpdate am a now rd = Inr am"
proof -
  obtain found jt where f: "findAccount pq a = (found, jt)" by (cases "findAccount pq a")
  from assms(2) have "id_acc a \<in> id_acc ` set pq" by (metis image_eqI)
  with findAccount_props[OF f]
  have "found" "pq_top jt \<in> set pq" "id_acc (pq_top jt) = id_acc a" by auto
  with assms(3) f have "findAccount pq a = (True, jt)" "version a \<le>s version (pq_top jt)"
    by auto
  with assms(1) show ?thesis by (rule ingest_ranked_stale)
qed

lemma stale_update_changes_nothing_instance:
  "ingestAccountUpdate afterABCD (newAccount ''C'' ''user'' 99 0 Map.empty 1) 7 5 = Inr afterABCD \<and>
   ingestAccountUpdate afterABCD (newAccount ''C'' ''user'' 99 0 Map.empty 0) 7 5 = Inr afterABCD"
  by (intro conjI
        stale_update_changes_nothing [where pq = "[newAccount ''B'' ''user'' 20 100 Map.empty 1,
          newAccount ''C'' ''user'' 30 100 Map.empty 1, newAccount ''D'' ''user'' 40 100 Map.empty 1]"])
     (simp_all add: afterABCD_def word_sle_eq)

text \<open>
  Claim C10. When the queue of the update's account type holds no entry with the update's
  identifier (or the type has no queue yet), \<^verbatim>\<open>ingestAccountUpdate\<close> compares no versions
  and does not fail: the account is indexed under its identifier and version, with no other
  index entry touched; it is inserted into the queue of its type, whose front is popped
  when more than three are then held; and one callback for it is scheduled on top of
  those pending, with no cancellation, whatever the index and the callback manager held
  for the identifier.
\<close>

theorem unranked_update_is_accepted:
  assumes "\<forall>pq. highestTokenAccounts (accountIndexer am) (accountType a) = Some pq \<longrightarrow>
              id_acc a \<notin> id_acc ` set pq"
  shows "\<exists>am' inserted.
     ingestAccountUpdate am a now rd = Inr am' \<and>
     indexedAccounts (accountIndexer am') =
       AList.update (id_acc a, version a) a (indexedAccounts (accountIndexer am)) \<and>
     map_of (indexedAccounts (accountIndexer am')) (id_acc a, version a) = Some a \<and>
     mset inserted =
       add_mset a (mset (case highestTokenAccounts (accountIndexer am) (accountType a) of
                           None \<Rightarrow> [] | Some pq \<Rightarrow> pq)) \<and>
     highestTokenAccounts (accountIndexer am') =
       (highestTokenAccounts (accountIndexer am))
         (accountType a \<mapsto> (if length inserted > 3 then pq_pop inserted else inserted)) \<and>
     callbackManager am' =
       scheduleCallback (callbackManager am) a (now + sint (callbackTimeMs a + rd)) \<and>
     mset (callbacks (callbackManager am')) =
       add_mset (now + sint (callbackTimeMs a + rd), a) (mset (callbacks (callbackManager am))) \<and>
     indexMap (callbackManager am') =
       (indexMap (callbackManager am))(id_acc a \<mapsto> length (callbacks (callbackManager am)))"
proof -
  let ?pq = "case highestTokenAccounts (accountIndexer am) (accountType a) of
               None \<Rightarrow> [] | Some pq \<Rightarrow> pq"
  let ?am = "acceptAccount am a now rd"
  have "ingestAccountUpdate am a now rd = Inr ?am"
    using assms by (rule ingest_not_ranked)
  moreover have "map_of (indexedAccounts (accountIndexer ?am)) (id_acc a, version a) = Some a"
    by (simp add: acceptAccount_sel update_conv')
  moreover have "mset (insertAccountIntoPriorityQueue ?pq a) = add_mset a (mset ?pq)"
    by (rule mset_insertAccountIntoPriorityQueue)
  ultimately show ?thesis
    by (intro exI[of _ ?am] exI[of _ "insertAccountIntoPriorityQueue ?pq a"])
       (simp add: acceptAccount_sel scheduleCallback_sel Let_def)
qed

theorem unranked_update_is_accepted_witness:
  "\<exists>am'. ingestAccountUpdate afterABCD (newAccount ''A'' ''user'' 10 100 Map.empty 0) 0 0 = Inr am' \<and>
     map fst (indexedAccounts (accountIndexer am')) =
       [(''A'', 1), (''B'', 1), (''C'', 1), (''D'', 1), (''A'', 0)] \<and>
     length (callbacks (callbackManager am')) = 5 \<and>
     indexMap (callbackManager am') ''A'' = Some 4"
proof -
  from unranked_update_is_accepted [of afterABCD "newAccount ''A'' ''user'' 10 100 Map.empty 0" 0 0]
  obtain am' where
    "ingestAccountUpdate afterABCD (newAccount ''A'' ''user'' 10 100 Map.empty 0) 0 0 = Inr am'"
    "indexedAccounts (accountIndexer am') =
       AList.update (''A'', 0) (newAccount ''A'' ''user'' 10 100 Map.empty 0)
         (indexedAccounts (accountIndexer afterABCD))"
    "mset (callbacks (callbackManager am')) =
       add_mset (100, newAccount ''A'' ''user'' 10 100 Map.empty 0)
         (mset (callbacks (callbackManager afterABCD)))"
    "indexMap (callbackManager am') =
       (indexMap (callbackManager afterABCD))(''A'' \<mapsto> length (callbacks (callbackManager afterABCD)))"
    by (auto simp: afterABCD_def)
  moreover from this(3) have "length (callbacks (callbackManager am')) = 5"
    by (simp add: afterABCD_def flip: size_mset)
  ultimately show ?thesis
    by (intro exI[of _ am']) (simp add: afterABCD_def)
qed

section \<open>The queues hold at most three accounts, with distinct identifiers\<close>

lemma distinct_map_mset_sub:
  assumes "mset ys \<subseteq># mset xs" "distinct (map f xs)"
  shows "distinct (map f ys)"
proof -
  obtain zs where "mset zs = mset xs - mset ys" using ex_mset by blast
  with assms(1) have "mset xs = mset (ys @ zs)" by simp
  from distinct_map_mset_cong[OF this, of f] assms(2) show ?thesis by simp
qed

lemma removed_has_no_such_id:
  assumes "distinct (map f q)" "old \<in> set q" "mset r = mset q - {#old#}"
  shows "f old \<notin> f ` set r"
proof -
  from assms(2,3) have "mset q = mset (old # r)" by simp
  from distinct_map_mset_cong[OF this, of f] assms(1) show ?thesis by simp
qed

definition rankingBounded :: "AccountManager \<Rightarrow> bool" where
  "rankingBounded am =
     (\<forall>c pq. highestTokenAccounts (accountIndexer am) c = Some pq \<longrightarrow>
        length pq \<le> 3 \<and> distinct (map id_acc pq))"

lemma kept_bounded:
  assumes "length q \<le> 3" "distinct (map id_acc q)" "id_acc a \<notin> id_acc ` set q"
  defines "inserted \<equiv> insertAccountIntoPriorityQueue q a"
  shows "length (if length inserted > 3 then pq_pop inserted else inserted) \<le> 3 \<and>
         distinct (map id_acc (if length inserted > 3 then pq_pop inserted else inserted))"
proof -
  have m: "mset inserted = mset (a # q)"
    by (simp add: inserted_def mset_insertAccountIntoPriorityQueue)
  then have l: "length inserted = Suc (length q)" by (metis length_Cons size_mset)
  have d: "distinct (map id_acc inserted)"
    using distinct_map_mset_cong[OF m, of id_acc] assms(2,3) by simp
  have ne: "inserted \<noteq> []" using l by auto
  have "mset (pq_pop inserted) \<subseteq># mset inserted"
    by (simp add: mset_pq_pop[OF ne])
  from distinct_map_mset_sub[OF this d] l d assms(1) show ?thesis by auto
qed

lemma acceptAccount_rankingBounded:
  assumes "rankingBounded am"
    and "\<forall>pq. highestTokenAccounts (accountIndexer am) (accountType a) = Some pq \<longrightarrow>
            id_acc a \<notin> id_acc ` set pq"
  shows "rankingBounded (acceptAccount am a now rd)"
proof -
  let ?q = "case highestTokenAccounts (accountIndexer am) (accountType a) of None \<Rightarrow> [] | Some pq \<Rightarrow> pq"
  have "length ?q \<le> 3 \<and> distinct (map id_acc ?q) \<and> id_acc a \<notin> id_acc ` set ?q"
  proof (cases "highestTokenAccounts (accountIndexer am) (accountType a)")
    case None
    then show ?thesis by simp
  next
    case (Some pq)
    with assms show ?thesis by (simp add: rankingBounded_def)
  qed
  then have "length ?q \<le> 3" "distinct (map id_acc ?q)" "id_acc a \<notin> id_acc ` set ?q"
    by blast+
  from kept_bounded[OF this] assms(1) show ?thesis
    by (auto simp: rankingBounded_def acceptAccount_sel Let_def)
qed

lemma ingest_rankingBounded:
  assumes "ingestAccountUpdate am a now rd = Inr am'" "rankingBounded am"
  shows "rankingBounded am'"
  using assms(1)
proof (cases rule: ingest_cases)
  case fresh
  with assms(2) show ?thesis by (simp add: acceptAccount_rankingBounded)
next
  case (stale pq old)
  with assms(2) show ?thesis by simp
next
  case (newer pq old cm1 removed)
  let ?am1 = "\<lparr>callbackManager = cm1,
                accountIndexer = (removeAccount (accountIndexer am) old)
                  \<lparr>highestTokenAccounts :=
                     (highestTokenAccounts (accountIndexer am))(accountType a \<mapsto> removed)\<rparr>\<rparr>"
  from assms(2) newer(1) have q: "length pq \<le> 3" "distinct (map id_acc pq)"
    by (auto simp: rankingBounded_def)
  have sub: "mset removed \<subseteq># mset pq" using newer(6) by simp
  then have "length removed \<le> length pq" by (metis size_mset size_mset_mono)
  moreover have "distinct (map id_acc removed)" using distinct_map_mset_sub[OF sub q(2)] .
  moreover have "id_acc a \<notin> id_acc ` set removed"
    using removed_has_no_such_id[OF q(2) newer(2) newer(6)] newer(3) by simp
  ultimately have "rankingBounded ?am1" "\<forall>pq. highestTokenAccounts (accountIndexer ?am1) (accountType a) = Some pq \<longrightarrow>
            id_acc a \<notin> id_acc ` set pq"
    using assms(2) q by (auto simp: rankingBounded_def removeAccount_def)
  then show ?thesis unfolding newer(7) by (rule acceptAccount_rankingBounded)
qed

lemma processAccountUpdates_rankingBounded:
  "processAccountUpdates am accountUpdates = Inr am' \<Longrightarrow> rankingBounded am \<Longrightarrow> rankingBounded am'"
proof (induction am accountUpdates rule: processAccountUpdates.induct)
  case (1 am)
  then show ?case by simp
next
  case (2 am account now randomDelay sweepTime accountUpdates)
  from "2.prems"(1) obtain am1 events cm where
    i: "ingestAccountUpdate am account now randomDelay = Inr am1"
    and f: "fireCallbacks (callbackManager am1) sweepTime = Inr (events, cm)"
    and r: "processAccountUpdates (am1\<lparr>callbackManager := cm\<rparr>) accountUpdates = Inr am'"
    by (auto split: sum.splits)
  have "rankingBounded am1" using ingest_rankingBounded[OF i "2.prems"(2)] .
  then have "rankingBounded (am1\<lparr>callbackManager := cm\<rparr>)" by (simp add: rankingBounded_def)
  with "2.IH"[OF i f refl r] show ?case by simp
qed

text \<open>
  Claim C4. After any sequence of updates processed from the initial state (each followed by
  its sweep of the callbacks, none faulting), the queue of every account type holds at
  most three accounts, and no two of them share an identifier.
\<close>

theorem ranking_at_most_three_distinct:
  assumes "processAccountUpdates newAccountManager accountUpdates = Inr am"
    and "highestTokenAccounts (accountIndexer am) c = Some pq"
  shows "length pq \<le> 3 \<and> distinct (map id_acc pq)"
proof -
  have "rankingBounded newAccountManager"
    by (simp add: rankingBounded_def newAccountManager_def)
  with assms(1) have "rankingBounded am" by (rule processAccountUpdates_rankingBounded)
  with assms(2) show ?thesis by (simp add: rankingBounded_def)
qed

theorem ranking_at_most_three_distinct_witness:
  "processAccountUpdates newAccountManager
     [(newAccount ''A'' ''user'' 10 100 Map.empty 1, 0, 0, 0),
      (newAccount ''B'' ''user'' 20 100 Map.empty 1, 0, 0, 0),
      (newAccount ''C'' ''user'' 30 100 Map.empty 1, 0, 0, 0),
      (newAccount ''D'' ''user'' 40 100 Map.empty 1, 0, 0, 0)] = Inr afterABCD \<and>
   highestTokenAccounts (accountIndexer afterABCD) ''user'' =
     Some [newAccount ''B'' ''user'' 20 100 Map.empty 1, newAccount ''C'' ''user'' 30 100 Map.empty 1,
           newAccount ''D'' ''user'' 40 100 Map.empty 1] \<and>
   length [newAccount ''B'' ''user'' 20 100 Map.empty 1, newAccount ''C'' ''user'' 30 100 Map.empty 1,
           newAccount ''D'' ''user'' 40 100 Map.empty 1] \<le> 3 \<and>
   distinct (map id_acc [newAccount ''B'' ''user'' 20 100 Map.empty 1,
           newAccount ''C'' ''user'' 30 100 Map.empty 1, newAccount ''D'' ''user'' 40 100 Map.empty 1])"
proof -
  have r: "highestTokenAccounts (accountIndexer afterABCD) ''user'' =
     Some [newAccount ''B'' ''user'' 20 100 Map.empty 1, newAccount ''C'' ''user'' 30 100 Map.empty 1,
           newAccount ''D'' ''user'' 40 100 Map.empty 1]"
    by (simp add: afterABCD_def)
  from ranking_at_most_three_distinct [OF afterABCD_processed r] afterABCD_processed r
  show ?thesis by blast
qed

section \<open>Eviction\<close>

lemma AccountTokenComparator_key:
  "AccountTokenComparator a b \<longleftrightarrow> sint (tokens b) < sint (tokens a)"
  by (simp add: AccountTokenComparator_def word_sless_alt)

lemma is_heap_Nil: "is_heap cmp []"
  by (simp add: is_heap_def)

lemma pq_push_is_heap:
  "is_heap AccountTokenComparator pq \<Longrightarrow> is_heap AccountTokenComparator (pq_push pq a)"
  unfolding pq_push_def
  by (rule push_heap_is_heap[where key = "\<lambda>a. sint (tokens a)"]) (simp_all add: AccountTokenComparator_key)

lemma moveAll_is_heap:
  "is_heap AccountTokenComparator temp \<Longrightarrow> is_heap AccountTokenComparator (moveAll pq temp)"
proof (induction pq temp rule: moveAll.induct)
  case (1 pq temp)
  show ?case
  proof (cases "pq = []")
    case True
    with "1.prems" show ?thesis by (subst moveAll.simps) simp
  next
    case False
    with "1.IH"[OF False pq_push_is_heap[OF "1.prems"]] show ?thesis
      by (subst moveAll.simps) simp
  qed
qed

lemma moveWhileMoreTokens_is_heap:
  "moveWhileMoreTokens pq temp a = (pq1, temp1) \<Longrightarrow> is_heap AccountTokenComparator temp \<Longrightarrow>
     is_heap AccountTokenComparator temp1"
proof (induction pq temp a rule: moveWhileMoreTokens.induct)
  case (1 pq temp a)
  show ?case
  proof (cases "pq \<noteq> [] \<and> tokens a <s tokens (pq_top pq)")
    case True
    then have "moveWhileMoreTokens (pq_pop pq) (pq_push temp (pq_top pq)) a = (pq1, temp1)"
      using "1.prems"(1) by (subst (asm) moveWhileMoreTokens.simps) simp
    from "1.IH"[OF True this pq_push_is_heap[OF "1.prems"(2)]] show ?thesis .
  next
    case False
    with "1.prems" show ?thesis by (subst (asm) moveWhileMoreTokens.simps) auto
  qed
qed

lemma insertAccountIntoPriorityQueue_is_heap:
  "is_heap AccountTokenComparator (insertAccountIntoPriorityQueue pq a)"
proof -
  obtain pq1 temp1 where m: "moveWhileMoreTokens pq [] a = (pq1, temp1)"
    by (cases "moveWhileMoreTokens pq [] a")
  from moveWhileMoreTokens_is_heap[OF m is_heap_Nil] show ?thesis
    by (simp add: insertAccountIntoPriorityQueue_def m moveAll_is_heap pq_push_is_heap)
qed

lemma heap_top_lowest:
  assumes "is_heap AccountTokenComparator pq" "x \<in> set pq"
  shows "tokens (pq_top pq) \<le>s tokens x"
proof -
  from assms(2) obtain i where i: "i < length pq" "pq ! i = x" by (auto simp: in_set_conv_nth)
  from is_heap_front[where key = "\<lambda>a. sint (tokens a)", OF _ assms(1) i(1)] i
  show ?thesis by (cases pq) (auto simp: AccountTokenComparator_key pq_top_def word_sle_eq)
qed

text \<open>
  Claim C5. \<^verbatim>\<open>acceptAccount\<close> is the part of \<^verbatim>\<open>ingestAccountUpdate\<close> that every update not
  rejected runs (\<open>ingest_cases\<close>). It leaves a queue for the account type. When the
  accounts held before together with the new one are more than three, exactly one of them
  is missing from that queue, and it is one with the least tokens (in the signed order)
  among them; otherwise none is missing.
\<close>

theorem eviction_of_lowest_tokens:
  "\<exists>kept. highestTokenAccounts (accountIndexer (acceptAccount am a now rd)) (accountType a) = Some kept \<and>
     (let held = add_mset a (mset (case highestTokenAccounts (accountIndexer am) (accountType a) of
                                     None \<Rightarrow> [] | Some pq \<Rightarrow> pq))
      in if size held > 3
         then \<exists>evicted. evicted \<in># held \<and> (\<forall>x \<in># held. tokens evicted \<le>s tokens x) \<and>
                 mset kept = held - {#evicted#}
         else mset kept = held)"
proof -
  let ?q = "case highestTokenAccounts (accountIndexer am) (accountType a) of None \<Rightarrow> [] | Some pq \<Rightarrow> pq"
  let ?ins = "insertAccountIntoPriorityQueue ?q a"
  let ?kept = "if length ?ins > 3 then pq_pop ?ins else ?ins"
  have m: "mset ?ins = add_mset a (mset ?q)" by (rule mset_insertAccountIntoPriorityQueue)
  then have l: "length ?ins = size (add_mset a (mset ?q))" by (metis size_mset)
  have k: "highestTokenAccounts (accountIndexer (acceptAccount am a now rd)) (accountType a) = Some ?kept"
    by (simp add: acceptAccount_sel Let_def)
  show ?thesis
  proof (cases "length ?ins > 3")
    case False
    with k m l show ?thesis by (simp add: Let_def)
  next
    case True
    then have ne: "?ins \<noteq> []" by auto
    have "pq_top ?ins \<in># add_mset a (mset ?q)"
      using pq_top_in[OF ne] m by simp
    moreover have "\<forall>x \<in># add_mset a (mset ?q). tokens (pq_top ?ins) \<le>s tokens x"
    proof
      fix x assume "x \<in># add_mset a (mset ?q)"
      then have "x \<in> set ?ins" using m by (metis set_mset_mset)
      with insertAccountIntoPriorityQueue_is_heap show "tokens (pq_top ?ins) \<le>s tokens x"
        by (rule heap_top_lowest)
    qed
    moreover have "mset (pq_pop ?ins) = add_mset a (mset ?q) - {#pq_top ?ins#}"
      using mset_pq_pop[OF ne] m by simp
    ultimately have "\<exists>evicted. evicted \<in># add_mset a (mset ?q) \<and>
        (\<forall>x \<in># add_mset a (mset ?q). tokens evicted \<le>s tokens x) \<and>
        mset (pq_pop ?ins) = add_mset a (mset ?q) - {#evicted#}"
      by blast
    with True k l show ?thesis by (simp add: Let_def)
  qed
qed

theorem eviction_of_lowest_tokens_witness:
  "\<exists>kept. highestTokenAccounts
            (accountIndexer (acceptAccount afterABCD (newAccount ''E'' ''user'' 25 100 Map.empty 1) 0 0))
            ''user'' = Some kept \<and>
     mset kept = {#newAccount ''E'' ''user'' 25 100 Map.empty 1, newAccount ''C'' ''user'' 30 100 Map.empty 1,
                   newAccount ''D'' ''user'' 40 100 Map.empty 1#}"
proof -
  from eviction_of_lowest_tokens [of afterABCD "newAccount ''E'' ''user'' 25 100 Map.empty 1" 0 0]
  obtain kept evicted where
    k: "highestTokenAccounts
            (accountIndexer (acceptAccount afterABCD (newAccount ''E'' ''user'' 25 100 Map.empty 1) 0 0))
            ''user'' = Some kept"
    and e: "evicted \<in> {newAccount ''E'' ''user'' 25 100 Map.empty 1, newAccount ''B'' ''user'' 20 100 Map.empty 1,
               newAccount ''C'' ''user'' 30 100 Map.empty 1, newAccount ''D'' ''user'' 40 100 Map.empty 1}"
    and l: "tokens evicted \<le>s 20"
    and m: "mset kept =
        {#newAccount ''E'' ''user'' 25 100 Map.empty 1, newAccount ''B'' ''user'' 20 100 Map.empty 1,
          newAccount ''C'' ''user'' 30 100 Map.empty 1, newAccount ''D'' ''user'' 40 100 Map.empty 1#} - {#evicted#}"
    by (auto simp: afterABCD_def Let_def)
  from e l have "evicted = newAccount ''B'' ''user'' 20 100 Map.empty 1"
    by (auto simp: word_sle_eq)
  with k m show ?thesis by (simp add: newAccount_def)
qed

section \<open>The index follows the queues while nothing is evicted\<close>

text \<open>
  \<open>rankedAccounts\<close> are the accounts held in the queues, and \<open>entryOf\<close> is the index
  entry of an account. \<open>synced P R L\<close> relates the accounts \<open>P\<close> processed so far to
  the queues \<open>R\<close> and the index \<open>L\<close>: the queues hold processed accounts of their type
  with distinct identifiers; every processed account has an account of its type and
  identifier in a queue, of at least its version; and the index holds exactly the entries
  of the accounts in the queues.
\<close>

definition rankedAccounts :: "(string \<rightharpoonup> token_queue) \<Rightarrow> Account set" where
  "rankedAccounts R = {a. \<exists>c pq. R c = Some pq \<and> a \<in> set pq}"

definition entryOf :: "Account \<Rightarrow> AccountKey \<times> Account" where
  "entryOf a = ((id_acc a, version a), a)"

definition synced ::
  "Account set \<Rightarrow> (string \<rightharpoonup> token_queue) \<Rightarrow> (AccountKey \<times> Account) list \<Rightarrow> bool" where
  "synced P R L \<longleftrightarrow>
     (\<forall>c pq. R c = Some pq \<longrightarrow>
        distinct (map id_acc pq) \<and> set pq \<subseteq> P \<and> (\<forall>a \<in> set pq. accountType a = c)) \<and>
     (\<forall>b \<in> P. \<exists>a \<in> rankedAccounts R.
        accountType a = accountType b \<and> id_acc a = id_acc b \<and> version b \<le>s version a) \<and>
     distinct (map fst L) \<and> set L = entryOf ` rankedAccounts R"

text \<open>\<open>oneType U\<close>: within \<open>U\<close>, an identifier comes with a single account type.\<close>

definition oneType :: "Account set \<Rightarrow> bool" where
  "oneType U = (\<forall>a \<in> U. \<forall>b \<in> U. id_acc a = id_acc b \<longrightarrow> accountType a = accountType b)"

lemma set_update_new:
  "k \<notin> fst ` set al \<Longrightarrow> set (AList.update k v al) = insert (k, v) (set al)"
  by (induction al) auto

lemma set_delete: "set (AList.delete k al) = {e \<in> set al. fst e \<noteq> k}"
  by (induction al) auto

lemma synced_queue:
  assumes "synced P R L" "R c = Some pq"
  shows "distinct (map id_acc pq)" "set pq \<subseteq> P" "\<forall>a \<in> set pq. accountType a = c"
  using assms by (auto simp: synced_def)

lemma ranked_in:
  assumes "synced P R L" "a \<in> rankedAccounts R"
  shows "a \<in> P" "\<exists>pq. R (accountType a) = Some pq \<and> a \<in> set pq"
proof -
  from assms(2) obtain c pq where r: "R c = Some pq" "a \<in> set pq"
    by (auto simp: rankedAccounts_def)
  with synced_queue[OF assms(1) r(1)] show "a \<in> P" "\<exists>pq. R (accountType a) = Some pq \<and> a \<in> set pq"
    by auto
qed

lemma ranked_unique:
  assumes s: "synced P R L" and u: "P \<subseteq> U" "oneType U"
    and a: "a \<in> rankedAccounts R" "a' \<in> rankedAccounts R" "id_acc a = id_acc a'"
  shows "a = a'"
proof -
  from ranked_in[OF s a(1)] obtain pq where p: "a \<in> P" "R (accountType a) = Some pq" "a \<in> set pq"
    by auto
  from ranked_in[OF s a(2)] obtain pq' where p': "a' \<in> P" "R (accountType a') = Some pq'" "a' \<in> set pq'"
    by auto
  from p(1) p'(1) u a(3) have "accountType a = accountType a'"
    by (auto simp: oneType_def)
  with p(2) p'(2) have "pq' = pq" by simp
  with synced_queue(1)[OF s p(2)] p(3) p'(3) a(3) show ?thesis
    by (auto simp: distinct_map dest: inj_onD)
qed

lemma rankedAccounts_upd:
  "rankedAccounts (R(c \<mapsto> ins)) =
     set ins \<union> {a. \<exists>c' pq. c' \<noteq> c \<and> R c' = Some pq \<and> a \<in> set pq}"
  by (auto simp: rankedAccounts_def)

lemma synced_stale:
  assumes s: "synced P R L"
    and old: "R (accountType b) = Some pq" "old \<in> set pq" "id_acc old = id_acc b"
      "version b \<le>s version old"
  shows "synced (insert b P) R L"
proof -
  from old(1,2) have r: "old \<in> rankedAccounts R" by (auto simp: rankedAccounts_def)
  from synced_queue(3)[OF s old(1)] old(2) have "accountType old = accountType b" by simp
  with r old(3,4) have "\<exists>a \<in> rankedAccounts R.
        accountType a = accountType b \<and> id_acc a = id_acc b \<and> version b \<le>s version a"
    by blast
  with s show ?thesis unfolding synced_def by blast
qed

lemma synced_fresh:
  assumes s: "synced P R L" and u: "P \<subseteq> U" "b \<in> U" "oneType U"
    and fresh: "\<forall>pq. R (accountType b) = Some pq \<longrightarrow> id_acc b \<notin> id_acc ` set pq"
    and ins: "set ins = insert b (set (case R (accountType b) of None \<Rightarrow> [] | Some pq \<Rightarrow> pq))"
      "distinct (map id_acc ins)"
  shows "synced (insert b P) (R(accountType b \<mapsto> ins)) (AList.update (id_acc b, version b) b L)"
proof -
  let ?c = "accountType b"
  let ?R = "R(?c \<mapsto> ins)"
  have ranked: "rankedAccounts ?R = insert b (rankedAccounts R)"
  proof (cases "R ?c")
    case None
    have "{a. \<exists>c' pq. c' \<noteq> ?c \<and> R c' = Some pq \<and> a \<in> set pq} = rankedAccounts R"
    proof (intro set_eqI iffI)
      fix x assume "x \<in> {a. \<exists>c' pq. c' \<noteq> ?c \<and> R c' = Some pq \<and> a \<in> set pq}"
      then show "x \<in> rankedAccounts R" by (auto simp: rankedAccounts_def)
    next
      fix x assume "x \<in> rankedAccounts R"
      then obtain c' pq' where r: "R c' = Some pq'" "x \<in> set pq'" by (auto simp: rankedAccounts_def)
      with None have "c' \<noteq> ?c" by auto
      with r show "x \<in> {a. \<exists>c' pq. c' \<noteq> ?c \<and> R c' = Some pq \<and> a \<in> set pq}" by auto
    qed
    with None show ?thesis unfolding rankedAccounts_upd ins(1) by simp
  next
    case (Some pq)
    have "set pq \<union> {a. \<exists>c' pq. c' \<noteq> ?c \<and> R c' = Some pq \<and> a \<in> set pq} = rankedAccounts R"
    proof (intro set_eqI iffI)
      fix x assume "x \<in> set pq \<union> {a. \<exists>c' pq. c' \<noteq> ?c \<and> R c' = Some pq \<and> a \<in> set pq}"
      with Some show "x \<in> rankedAccounts R" by (auto simp: rankedAccounts_def)
    next
      fix x assume "x \<in> rankedAccounts R"
      then obtain c' pq' where r: "R c' = Some pq'" "x \<in> set pq'" by (auto simp: rankedAccounts_def)
      show "x \<in> set pq \<union> {a. \<exists>c' pq. c' \<noteq> ?c \<and> R c' = Some pq \<and> a \<in> set pq}"
        using r Some by (cases "c' = ?c") auto
    qed
    with Some show ?thesis unfolding rankedAccounts_upd ins(1) by auto
  qed
  have J1: "\<forall>c pq. ?R c = Some pq \<longrightarrow>
        distinct (map id_acc pq) \<and> set pq \<subseteq> insert b P \<and> (\<forall>a \<in> set pq. accountType a = c)"
  proof (intro allI impI)
    fix c pq assume r: "?R c = Some pq"
    show "distinct (map id_acc pq) \<and> set pq \<subseteq> insert b P \<and> (\<forall>a \<in> set pq. accountType a = c)"
    proof (cases "c = ?c")
      case True
      with r have "pq = ins" by simp
      moreover have "\<forall>a \<in> set ins. a = b \<or> (a \<in> P \<and> accountType a = ?c)"
      proof (cases "R ?c")
        case None
        then show ?thesis unfolding ins(1) by simp
      next
        case (Some pq0)
        with synced_queue[OF s Some] show ?thesis unfolding ins(1) by auto
      qed
      ultimately show ?thesis using ins(2) True by auto
    next
      case False
      with r have "R c = Some pq" by simp
      from synced_queue[OF s this] show ?thesis by auto
    qed
  qed
  have J2: "\<forall>b' \<in> insert b P. \<exists>a \<in> rankedAccounts ?R.
        accountType a = accountType b' \<and> id_acc a = id_acc b' \<and> version b' \<le>s version a"
  proof
    fix b' assume "b' \<in> insert b P"
    then show "\<exists>a \<in> rankedAccounts ?R.
        accountType a = accountType b' \<and> id_acc a = id_acc b' \<and> version b' \<le>s version a"
    proof
      assume "b' = b"
      then show ?thesis unfolding ranked by (intro bexI[of _ b]) (simp_all add: word_sle_eq)
    next
      assume "b' \<in> P"
      with s show ?thesis unfolding ranked synced_def by blast
    qed
  qed
  have nokey: "(id_acc b, version b) \<notin> fst ` set L"
  proof
    assume "(id_acc b, version b) \<in> fst ` set L"
    then obtain e where e: "e \<in> set L" "fst e = (id_acc b, version b)" by auto
    have "set L = entryOf ` rankedAccounts R" using s by (simp add: synced_def)
    with e(1) obtain a where a: "a \<in> rankedAccounts R" "e = entryOf a" by auto
    with e(2) have ida: "id_acc a = id_acc b" by (simp add: entryOf_def)
    from ranked_in[OF s a(1)] obtain pq where p: "a \<in> P" "R (accountType a) = Some pq" "a \<in> set pq"
      by auto
    from p(1) u ida have "accountType a = ?c" unfolding oneType_def by blast
    with p(2) have "R ?c = Some pq" by simp
    with fresh have "id_acc b \<notin> id_acc ` set pq" by blast
    moreover from p(3) have "id_acc a \<in> id_acc ` set pq" by (rule imageI)
    ultimately show False using ida by simp
  qed
  have J3: "distinct (map fst (AList.update (id_acc b, version b) b L))"
    "set (AList.update (id_acc b, version b) b L) = entryOf ` rankedAccounts ?R"
    using s nokey by (auto simp: synced_def distinct_update set_update_new ranked entryOf_def)
  from J1 J2 J3 show ?thesis unfolding synced_def by blast
qed

lemma synced_newer:
  assumes s: "synced P R L" and u: "P \<subseteq> U" "b \<in> U" "oneType U"
    and old: "R (accountType b) = Some pq" "old \<in> set pq" "id_acc old = id_acc b"
      "\<not> version b \<le>s version old"
    and ins: "set ins = insert b (set pq - {old})" "distinct (map id_acc ins)"
  shows "synced (insert b P) (R(accountType b \<mapsto> ins))
           (AList.update (id_acc b, version b) b (AList.delete (id_acc old, version old) L))"
proof -
  let ?c = "accountType b"
  let ?R = "R(?c \<mapsto> ins)"
  note q = synced_queue[OF s old(1)]
  have oldr: "old \<in> rankedAccounts R" using old(1,2) by (auto simp: rankedAccounts_def)
  have oldc: "accountType old = ?c" using q(3) old(2) by simp
  have only: "\<And>c' pq'. R c' = Some pq' \<Longrightarrow> old \<in> set pq' \<Longrightarrow> c' = ?c"
    using s oldc by (auto simp: synced_def)
  have "(set pq - {old}) \<union> {a. \<exists>c' pq. c' \<noteq> ?c \<and> R c' = Some pq \<and> a \<in> set pq} =
      rankedAccounts R - {old}"
  proof (intro set_eqI iffI)
    fix x assume "x \<in> (set pq - {old}) \<union> {a. \<exists>c' pq. c' \<noteq> ?c \<and> R c' = Some pq \<and> a \<in> set pq}"
    with old(1) only show "x \<in> rankedAccounts R - {old}" by (auto simp: rankedAccounts_def)
  next
    fix x assume "x \<in> rankedAccounts R - {old}"
    then obtain c' pq' where r: "R c' = Some pq'" "x \<in> set pq'" "x \<noteq> old"
      by (auto simp: rankedAccounts_def)
    show "x \<in> (set pq - {old}) \<union> {a. \<exists>c' pq. c' \<noteq> ?c \<and> R c' = Some pq \<and> a \<in> set pq}"
      using r old(1) by (cases "c' = ?c") auto
  qed
  then have ranked: "rankedAccounts ?R = insert b (rankedAccounts R - {old})"
    unfolding rankedAccounts_upd ins(1) by auto
  have uniq: "\<And>a. a \<in> rankedAccounts R \<Longrightarrow> id_acc a = id_acc b \<Longrightarrow> a = old"
    using ranked_unique[OF s u(1,3) _ oldr] old(3) by simp
  have J1: "\<forall>c pq'. ?R c = Some pq' \<longrightarrow>
        distinct (map id_acc pq') \<and> set pq' \<subseteq> insert b P \<and> (\<forall>a \<in> set pq'. accountType a = c)"
  proof (intro allI impI)
    fix c pq' assume r: "?R c = Some pq'"
    show "distinct (map id_acc pq') \<and> set pq' \<subseteq> insert b P \<and> (\<forall>a \<in> set pq'. accountType a = c)"
    proof (cases "c = ?c")
      case True
      with r have "pq' = ins" by simp
      with ins q True show ?thesis by auto
    next
      case False
      with r have "R c = Some pq'" by simp
      from synced_queue[OF s this] show ?thesis by auto
    qed
  qed
  have lt: "version old \<le>s version b" using old(4) by (simp add: word_sle_eq)
  have J2: "\<forall>b' \<in> insert b P. \<exists>a \<in> rankedAccounts ?R.
        accountType a = accountType b' \<and> id_acc a = id_acc b' \<and> version b' \<le>s version a"
  proof
    fix b' assume "b' \<in> insert b P"
    then show "\<exists>a \<in> rankedAccounts ?R.
        accountType a = accountType b' \<and> id_acc a = id_acc b' \<and> version b' \<le>s version a"
    proof
      assume "b' = b"
      then show ?thesis unfolding ranked by (intro bexI[of _ b]) (simp_all add: word_sle_eq)
    next
      assume "b' \<in> P"
      with s obtain a where a: "a \<in> rankedAccounts R" "accountType a = accountType b'"
        "id_acc a = id_acc b'" "version b' \<le>s version a"
        unfolding synced_def by blast
      show ?thesis
      proof (cases "a = old")
        case True
        with a oldc old(3) lt show ?thesis
          unfolding ranked by (intro bexI[of _ b]) (auto simp: word_sle_eq)
      next
        case False
        with a show ?thesis unfolding ranked by blast
      qed
    qed
  qed
  let ?L1 = "AList.delete (id_acc old, version old) L"
  have L1: "set ?L1 = entryOf ` (rankedAccounts R - {old})"
  proof -
    have sl: "set L = entryOf ` rankedAccounts R" using s by (simp add: synced_def)
    have k: "\<And>a. a \<in> rankedAccounts R \<Longrightarrow> fst (entryOf a) = (id_acc old, version old) \<longleftrightarrow> a = old"
      using uniq old(3) by (auto simp: entryOf_def)
    show ?thesis
    proof (intro set_eqI iffI)
      fix e assume "e \<in> set ?L1"
      then have "e \<in> set L" "fst e \<noteq> (id_acc old, version old)" by (simp_all add: set_delete)
      with sl obtain a where "a \<in> rankedAccounts R" "e = entryOf a" by auto
      with \<open>fst e \<noteq> _\<close> k[of a] show "e \<in> entryOf ` (rankedAccounts R - {old})" by auto
    next
      fix e assume "e \<in> entryOf ` (rankedAccounts R - {old})"
      then obtain a where a: "a \<in> rankedAccounts R" "a \<noteq> old" "e = entryOf a" by auto
      with k[of a] sl show "e \<in> set ?L1" by (simp add: set_delete)
    qed
  qed
  have nokey: "(id_acc b, version b) \<notin> fst ` set ?L1"
  proof
    assume "(id_acc b, version b) \<in> fst ` set ?L1"
    then obtain e where e: "e \<in> set ?L1" "fst e = (id_acc b, version b)" by auto
    from e(1) obtain a where a: "a \<in> rankedAccounts R - {old}" "e = entryOf a"
      unfolding L1 by auto
    with e(2) have "id_acc a = id_acc b" by (simp add: entryOf_def)
    with a(1) uniq[of a] show False by simp
  qed
  have d1: "distinct (map fst ?L1)" using s by (simp add: synced_def distinct_delete)
  have J3: "distinct (map fst (AList.update (id_acc b, version b) b ?L1))"
    "set (AList.update (id_acc b, version b) b ?L1) = entryOf ` rankedAccounts ?R"
    using d1 nokey by (auto simp: distinct_update set_update_new L1 ranked entryOf_def)
  from J1 J2 J3 show ?thesis unfolding synced_def by blast
qed

text \<open>\<open>fewPerType U\<close>: no account type has more than three identifiers in \<open>U\<close>, so that
  no queue ever holds more than three accounts and \<^verbatim>\<open>pop\<close> evicts nothing.\<close>

definition fewPerType :: "Account set \<Rightarrow> bool" where
  "fewPerType U = (\<forall>c. card (id_acc ` {a \<in> U. accountType a = c}) \<le> 3)"

lemma no_eviction:
  assumes q: "distinct (map id_acc q1)" "id_acc b \<notin> id_acc ` set q1" "set q1 \<subseteq> U"
      "\<forall>a \<in> set q1. accountType a = accountType b"
    and u: "b \<in> U" "finite U" "fewPerType U"
    and m: "mset ins = add_mset b (mset q1)"
  shows "length ins \<le> 3" "distinct (map id_acc ins)" "set ins = insert b (set q1)"
proof -
  from m have m': "mset ins = mset (b # q1)" by simp
  from distinct_map_mset_cong[OF m', of id_acc] q(1,2) show d: "distinct (map id_acc ins)" by simp
  from mset_eq_setD[OF m'] show s: "set ins = insert b (set q1)" by simp
  have "id_acc ` set ins \<subseteq> id_acc ` {a \<in> U. accountType a = accountType b}"
    unfolding s using q(3,4) u(1) by auto
  moreover have "finite (id_acc ` {a \<in> U. accountType a = accountType b})" using u(2) by simp
  ultimately have "card (id_acc ` set ins) \<le> card (id_acc ` {a \<in> U. accountType a = accountType b})"
    by (rule card_mono[rotated])
  moreover have "card (id_acc ` set ins) = length ins"
    using distinct_card[OF d] by simp
  ultimately show "length ins \<le> 3" using u(3) unfolding fewPerType_def
    by (metis le_trans)
qed

lemma ingest_synced:
  assumes i: "ingestAccountUpdate am b now rd = Inr am'"
    and s: "synced P (highestTokenAccounts (accountIndexer am)) (indexedAccounts (accountIndexer am))"
    and u: "P \<subseteq> U" "b \<in> U" "oneType U" "finite U" "fewPerType U"
  shows "synced (insert b P) (highestTokenAccounts (accountIndexer am'))
           (indexedAccounts (accountIndexer am'))"
  using i
proof (cases rule: ingest_cases)
  case fresh
  let ?R = "highestTokenAccounts (accountIndexer am)"
  let ?q = "case ?R (accountType b) of None \<Rightarrow> [] | Some pq \<Rightarrow> pq"
  let ?ins = "insertAccountIntoPriorityQueue ?q b"
  have q: "distinct (map id_acc ?q) \<and> id_acc b \<notin> id_acc ` set ?q \<and> set ?q \<subseteq> U \<and>
      (\<forall>a \<in> set ?q. accountType a = accountType b)"
  proof (cases "?R (accountType b)")
    case None
    then show ?thesis by simp
  next
    case (Some pq)
    with synced_queue[OF s Some] fresh(1) u(1) show ?thesis by auto
  qed
  have m: "mset ?ins = add_mset b (mset ?q)" by (rule mset_insertAccountIntoPriorityQueue)
  from q have q': "distinct (map id_acc ?q)" "id_acc b \<notin> id_acc ` set ?q" "set ?q \<subseteq> U"
      "\<forall>a \<in> set ?q. accountType a = accountType b" by blast+
  note ne = no_eviction[OF q' u(2,4,5) m]
  have R': "highestTokenAccounts (accountIndexer am') = ?R(accountType b \<mapsto> ?ins)"
    using ne(1) by (simp add: fresh(2) acceptAccount_sel Let_def)
  have L': "indexedAccounts (accountIndexer am') =
      AList.update (id_acc b, version b) b (indexedAccounts (accountIndexer am))"
    by (simp add: fresh(2) acceptAccount_sel)
  show ?thesis unfolding R' L'
    using s u(1,2,3) fresh(1) ne(3) ne(2) by (rule synced_fresh)
next
  case (stale pq old)
  from synced_stale[OF s stale(1,2,3,4)] stale(5) show ?thesis by simp
next
  case (newer pq old cm1 removed)
  let ?R = "highestTokenAccounts (accountIndexer am)"
  let ?am1 = "\<lparr>callbackManager = cm1,
                accountIndexer = (removeAccount (accountIndexer am) old)
                  \<lparr>highestTokenAccounts := ?R(accountType b \<mapsto> removed)\<rparr>\<rparr>"
  let ?ins = "insertAccountIntoPriorityQueue removed b"
  note sq = synced_queue[OF s newer(1)]
  have sub: "mset removed \<subseteq># mset pq" using newer(6) by simp
  have d: "distinct (map id_acc removed)" using distinct_map_mset_sub[OF sub sq(1)] .
  have nid: "id_acc b \<notin> id_acc ` set removed"
    using removed_has_no_such_id[OF sq(1) newer(2) newer(6)] newer(3) by simp
  have "mset pq = mset (old # removed)" using newer(2,6) by simp
  then have "set pq = insert old (set removed)" "distinct (old # removed)"
    using mset_eq_setD[of pq "old # removed"] mset_eq_imp_distinct_iff[of pq "old # removed"] sq(1)
    by (auto simp: distinct_map)
  then have sr: "set removed = set pq - {old}" by auto
  have qr: "set removed \<subseteq> U" "\<forall>a \<in> set removed. accountType a = accountType b"
    using sr sq(2,3) u(1) by auto
  have m: "mset ?ins = add_mset b (mset removed)" by (rule mset_insertAccountIntoPriorityQueue)
  note ne = no_eviction[OF d nid qr u(2,4,5) m]
  have R': "highestTokenAccounts (accountIndexer am') = ?R(accountType b \<mapsto> ?ins)"
    using ne(1) by (simp add: newer(7) acceptAccount_sel removeAccount_def Let_def)
  have L': "indexedAccounts (accountIndexer am') =
      AList.update (id_acc b, version b) b
        (AList.delete (id_acc old, version old) (indexedAccounts (accountIndexer am)))"
    by (simp add: newer(7) acceptAccount_sel removeAccount_def)
  have si: "set ?ins = insert b (set pq - {old})" using ne(3) sr by simp
  show ?thesis unfolding R' L'
    using s u(1,2,3) newer(1,2,3,4) si ne(2) by (rule synced_newer)
qed

lemma processAccountUpdates_synced:
  "processAccountUpdates am accountUpdates = Inr am' \<Longrightarrow>
   synced P (highestTokenAccounts (accountIndexer am)) (indexedAccounts (accountIndexer am)) \<Longrightarrow>
   P \<subseteq> U \<Longrightarrow> fst ` set accountUpdates \<subseteq> U \<Longrightarrow> oneType U \<Longrightarrow> finite U \<Longrightarrow> fewPerType U \<Longrightarrow>
   synced (P \<union> fst ` set accountUpdates) (highestTokenAccounts (accountIndexer am'))
     (indexedAccounts (accountIndexer am'))"
proof (induction am accountUpdates arbitrary: P rule: processAccountUpdates.induct)
  case (1 am)
  then show ?case by simp
next
  case (2 am account now randomDelay sweepTime accountUpdates)
  from "2.prems"(1) obtain am1 events cm where
    i: "ingestAccountUpdate am account now randomDelay = Inr am1"
    and f: "fireCallbacks (callbackManager am1) sweepTime = Inr (events, cm)"
    and r: "processAccountUpdates (am1\<lparr>callbackManager := cm\<rparr>) accountUpdates = Inr am'"
    by (auto split: sum.splits)
  from "2.prems"(4) have au: "account \<in> U" "fst ` set accountUpdates \<subseteq> U" by auto
  have "synced (insert account P) (highestTokenAccounts (accountIndexer am1))
           (indexedAccounts (accountIndexer am1))"
    using i "2.prems"(2,3) au(1) "2.prems"(5,6,7) by (rule ingest_synced)
  then have s1: "synced (insert account P)
      (highestTokenAccounts (accountIndexer (am1\<lparr>callbackManager := cm\<rparr>)))
      (indexedAccounts (accountIndexer (am1\<lparr>callbackManager := cm\<rparr>)))" by simp
  have "insert account P \<subseteq> U" using au(1) "2.prems"(3) by simp
  from "2.IH"[OF i f refl r s1 this au(2) "2.prems"(5,6,7)] show ?case by simp
qed

lemma synced_ledger:
  assumes s: "synced P R L" and o: "oneType P"
  shows "distinct (map (fst \<circ> fst) L)"
    and "fst ` fst ` set L = id_acc ` P"
    and "\<forall>e \<in> set L. \<exists>a \<in> P. e = entryOf a \<and> (\<forall>b \<in> P. id_acc b = id_acc a \<longrightarrow> version b \<le>s version a)"
proof -
  have sl: "set L = entryOf ` rankedAccounts R" and dl: "distinct (map fst L)"
    and J2: "\<forall>b \<in> P. \<exists>a \<in> rankedAccounts R.
        accountType a = accountType b \<and> id_acc a = id_acc b \<and> version b \<le>s version a"
    using s by (simp_all add: synced_def)
  note uniq = ranked_unique[OF s subset_refl o]
  have "inj_on fst (set (map fst L))"
  proof (rule inj_onI)
    fix k k' assume k: "k \<in> set (map fst L)" "k' \<in> set (map fst L)" "fst k = fst k'"
    then obtain a a' where a: "a \<in> rankedAccounts R" "k = fst (entryOf a)"
      "a' \<in> rankedAccounts R" "k' = fst (entryOf a')"
      using sl by auto
    with k(3) have "id_acc a = id_acc a'" by (simp add: entryOf_def)
    with uniq[OF a(1,3)] a show "k = k'" by simp
  qed
  with dl have "distinct (map fst (map fst L))" by (subst distinct_map) blast
  then show "distinct (map (fst \<circ> fst) L)" by simp
  show "fst ` fst ` set L = id_acc ` P"
  proof (intro set_eqI iffI)
    fix i assume "i \<in> fst ` fst ` set L"
    then obtain a where "a \<in> rankedAccounts R" "i = id_acc a"
      unfolding sl by (auto simp: entryOf_def)
    with ranked_in(1)[OF s] show "i \<in> id_acc ` P" by auto
  next
    fix i assume "i \<in> id_acc ` P"
    then obtain b where "b \<in> P" "i = id_acc b" by auto
    with J2 obtain a where "a \<in> rankedAccounts R" "id_acc a = i" by metis
    then have "fst (fst (entryOf a)) = i" "entryOf a \<in> set L"
      unfolding sl by (auto simp: entryOf_def)
    then show "i \<in> fst ` fst ` set L" by (metis imageI)
  qed
  show "\<forall>e \<in> set L. \<exists>a \<in> P. e = entryOf a \<and> (\<forall>b \<in> P. id_acc b = id_acc a \<longrightarrow> version b \<le>s version a)"
  proof
    fix e assume "e \<in> set L"
    then obtain a where a: "a \<in> rankedAccounts R" "e = entryOf a" unfolding sl by auto
    have "\<forall>b \<in> P. id_acc b = id_acc a \<longrightarrow> version b \<le>s version a"
    proof (intro ballI impI)
      fix b assume b: "b \<in> P" "id_acc b = id_acc a"
      with J2 obtain a' where a': "a' \<in> rankedAccounts R" "id_acc a' = id_acc b" "version b \<le>s version a'"
        by metis
      with uniq[OF a'(1) a(1)] b(2) show "version b \<le>s version a" by simp
    qed
    with a ranked_in(1)[OF s a(1)] show "\<exists>a \<in> P. e = entryOf a \<and>
        (\<forall>b \<in> P. id_acc b = id_acc a \<longrightarrow> version b \<le>s version a)"
      by blast
  qed
qed

lemma synced_initial:
  "synced {} (highestTokenAccounts (accountIndexer newAccountManager))
     (indexedAccounts (accountIndexer newAccountManager))"
  by (simp add: synced_def newAccountManager_def rankedAccounts_def)

lemma fewPerType_small:
  assumes "finite U" "card (id_acc ` U) \<le> 3"
  shows "fewPerType U"
  unfolding fewPerType_def
proof
  fix c
  have "id_acc ` {a \<in> U. accountType a = c} \<subseteq> id_acc ` U" by auto
  then have "card (id_acc ` {a \<in> U. accountType a = c}) \<le> card (id_acc ` U)"
    using assms(1) by (intro card_mono) auto
  with assms(2) show "card (id_acc ` {a \<in> U. accountType a = c}) \<le> 3" by simp
qed

lemma processAccountUpdates_append:
  "processAccountUpdates am (xs @ ys) =
     (case processAccountUpdates am xs of Inl e \<Rightarrow> Inl e | Inr am1 \<Rightarrow> processAccountUpdates am1 ys)"
  by (induction am xs rule: processAccountUpdates.induct) (auto split: sum.splits)

section \<open>The index after a run\<close>

lemma afterABCDA_processed:
  "processAccountUpdates newAccountManager
     [(newAccount ''A'' ''user'' 10 100 Map.empty 1, 0, 0, 0),
      (newAccount ''B'' ''user'' 20 100 Map.empty 1, 0, 0, 0),
      (newAccount ''C'' ''user'' 30 100 Map.empty 1, 0, 0, 0),
      (newAccount ''D'' ''user'' 40 100 Map.empty 1, 0, 0, 0),
      (newAccount ''A'' ''user'' 10 100 Map.empty 0, 0, 0, 0)] = Inr afterABCDA"
proof -
  have "processAccountUpdates afterABCD [(newAccount ''A'' ''user'' 10 100 Map.empty 0, 0, 0, 0)] =
      Inr afterABCDA"
    by (simp add: afterABCD_def afterABCDA_def ingest_eval queue_eval callback_eval heap_eval)
       (simp add: eval_nat_numeral)
  with processAccountUpdates_append[of newAccountManager
      "[(newAccount ''A'' ''user'' 10 100 Map.empty 1, 0, 0, 0),
        (newAccount ''B'' ''user'' 20 100 Map.empty 1, 0, 0, 0),
        (newAccount ''C'' ''user'' 30 100 Map.empty 1, 0, 0, 0),
        (newAccount ''D'' ''user'' 40 100 Map.empty 1, 0, 0, 0)]"
      "[(newAccount ''A'' ''user'' 10 100 Map.empty 0, 0, 0, 0)]"] afterABCD_processed
  show ?thesis by simp
qed

text \<open>
  Claim C2 (the code departs from it). An account evicted from the queue of its type
  stays indexed, and \<^verbatim>\<open>ingestAccountUpdate\<close>, which finds the entry to replace in that
  queue only, indexes a later update of the identifier beside it. Below, \<open>A\<close> is evicted
  by the fourth update and arrives again with version 0; the index then holds \<open>A\<close> twice,
  under versions 1 and 0, and the entry of version 1 has not been removed.
\<close>

theorem index_holds_identifier_twice:
  "processAccountUpdates newAccountManager
     [(newAccount ''A'' ''user'' 10 100 Map.empty 1, 0, 0, 0),
      (newAccount ''B'' ''user'' 20 100 Map.empty 1, 0, 0, 0),
      (newAccount ''C'' ''user'' 30 100 Map.empty 1, 0, 0, 0),
      (newAccount ''D'' ''user'' 40 100 Map.empty 1, 0, 0, 0),
      (newAccount ''A'' ''user'' 10 100 Map.empty 0, 0, 0, 0)] = Inr afterABCDA \<and>
   map fst (indexedAccounts (accountIndexer afterABCDA)) =
     [(''A'', 1), (''B'', 1), (''C'', 1), (''D'', 1), (''A'', 0)]"
  using afterABCDA_processed by (simp add: afterABCDA_def)

text \<open>
  In the runs where nothing is evicted the index holds one entry per identifier: let a
  sequence of updates be processed from the initial state (none faulting), such that each
  identifier comes with a single account type (\<open>oneType\<close>) and no account type has more
  than three identifiers (\<open>fewPerType\<close>), so that nothing is evicted. Then the index holds
  one entry for each identifier of the sequence and no other; the entry is an update of
  the sequence under its own identifier and version, and no update of the sequence with
  that identifier has a higher version.
\<close>

lemma index_one_latest_entry_per_identifier:
  assumes "processAccountUpdates newAccountManager accountUpdates = Inr am"
    and "oneType (fst ` set accountUpdates)"
    and "fewPerType (fst ` set accountUpdates)"
  shows "distinct (map (fst \<circ> fst) (indexedAccounts (accountIndexer am))) \<and>
    fst ` fst ` set (indexedAccounts (accountIndexer am)) = id_acc ` fst ` set accountUpdates \<and>
    (\<forall>e \<in> set (indexedAccounts (accountIndexer am)).
       \<exists>a \<in> fst ` set accountUpdates. e = ((id_acc a, version a), a) \<and>
         (\<forall>b \<in> fst ` set accountUpdates. id_acc b = id_acc a \<longrightarrow> version b \<le>s version a))"
proof -
  let ?U = "fst ` set accountUpdates"
  have "synced ({} \<union> ?U) (highestTokenAccounts (accountIndexer am)) (indexedAccounts (accountIndexer am))"
    using assms(1) synced_initial _ _ assms(2) _ assms(3)
    by (rule processAccountUpdates_synced) simp_all
  then have "synced ?U (highestTokenAccounts (accountIndexer am)) (indexedAccounts (accountIndexer am))"
    by simp
  from synced_ledger[OF this assms(2)] show ?thesis by (simp add: entryOf_def)
qed

text \<open>A run with two identifiers: \<open>A\<close> arrives with version 1, then \<open>B\<close>, then \<open>A\<close> with
  version 2.\<close>

definition afterABA :: AccountManager where
  "afterABA =
     \<lparr>callbackManager =
        \<lparr>callbacks = [(100, newAccount ''A'' ''user'' 100 100 Map.empty 1),
                      (100, newAccount ''A'' ''user'' 50 100 Map.empty 2)],
         indexMap = [''B'' \<mapsto> 0, ''A'' \<mapsto> 1]\<rparr>,
      accountIndexer =
        \<lparr>highestTokenAccounts =
           [''user'' \<mapsto> [newAccount ''B'' ''user'' 20 100 Map.empty 1,
                          newAccount ''A'' ''user'' 50 100 Map.empty 2]],
         indexedAccounts =
           [((''B'', 1), newAccount ''B'' ''user'' 20 100 Map.empty 1),
            ((''A'', 2), newAccount ''A'' ''user'' 50 100 Map.empty 2)]\<rparr>\<rparr>"

lemma afterABA_processed:
  "processAccountUpdates newAccountManager
     [(newAccount ''A'' ''user'' 100 100 Map.empty 1, 0, 0, 0),
      (newAccount ''B'' ''user'' 20 100 Map.empty 1, 0, 0, 0),
      (newAccount ''A'' ''user'' 50 100 Map.empty 2, 0, 0, 0)] = Inr afterABA"
  by (simp add: afterABA_def ingest_eval queue_eval callback_eval heap_eval)

text \<open>
  Claim C8 (the code departs from it). \<open>A\<close> and \<open>B\<close> are accepted, and \<open>A\<close> is superseded
  by its version 2. The supersession cancels one callback and schedules one, but the
  callback it cancels is that of \<open>B\<close>, since \<^verbatim>\<open>removeAtIndex\<close> swaps the entry of \<open>A\<close> to
  the back and then pops the front: afterwards two callbacks are pending for \<open>A\<close>, for
  its versions 1 and 2, and none for \<open>B\<close>, whose identifier is still in \<^verbatim>\<open>indexMap\<close>.
\<close>

theorem superseded_callback_stays_pending:
  "processAccountUpdates newAccountManager
     [(newAccount ''A'' ''user'' 100 100 Map.empty 1, 0, 0, 0),
      (newAccount ''B'' ''user'' 20 100 Map.empty 1, 0, 0, 0),
      (newAccount ''A'' ''user'' 50 100 Map.empty 2, 0, 0, 0)] = Inr afterABA \<and>
   callbacks (callbackManager afterABA) =
     [(100, newAccount ''A'' ''user'' 100 100 Map.empty 1),
      (100, newAccount ''A'' ''user'' 50 100 Map.empty 2)] \<and>
   indexMap (callbackManager afterABA) ''B'' = Some 0"
  using afterABA_processed by (simp add: afterABA_def)

text \<open>The index of that run, by the lemma above.\<close>

lemma index_one_latest_entry_per_identifier_instance:
  "processAccountUpdates newAccountManager
     [(newAccount ''A'' ''user'' 100 100 Map.empty 1, 0, 0, 0),
      (newAccount ''B'' ''user'' 20 100 Map.empty 1, 0, 0, 0),
      (newAccount ''A'' ''user'' 50 100 Map.empty 2, 0, 0, 0)] = Inr afterABA \<and>
   distinct (map (fst \<circ> fst) (indexedAccounts (accountIndexer afterABA))) \<and>
   fst ` fst ` set (indexedAccounts (accountIndexer afterABA)) = {''A'', ''B''}"
proof -
  let ?us = "[(newAccount ''A'' ''user'' 100 100 Map.empty 1, 0::int, 0::int32, 0::int),
      (newAccount ''B'' ''user'' 20 100 Map.empty 1, 0, 0, 0),
      (newAccount ''A'' ''user'' 50 100 Map.empty 2, 0, 0, 0)]"
  have o: "oneType (fst ` set ?us)" by (simp add: oneType_def)
  have "id_acc ` fst ` set ?us = {''A'', ''B''}" by auto
  then have "card (id_acc ` fst ` set ?us) \<le> 3" by simp
  then have f: "fewPerType (fst ` set ?us)" by (intro fewPerType_small) simp_all
  from index_one_latest_entry_per_identifier [OF afterABA_processed o f] afterABA_processed
  show ?thesis by auto
qed

text \<open>After \<open>A\<close>, \<open>B\<close>, \<open>C\<close>, \<open>D\<close>, the evicted \<open>A\<close> arrives with version 2 and 15
  tokens (it is evicted again at once).\<close>

definition afterABCDA2 :: AccountManager where
  "afterABCDA2 =
     \<lparr>callbackManager =
        \<lparr>callbacks = [(100, newAccount ''A'' ''user'' 10 100 Map.empty 1),
                      (100, newAccount ''B'' ''user'' 20 100 Map.empty 1),
                      (100, newAccount ''C'' ''user'' 30 100 Map.empty 1),
                      (100, newAccount ''D'' ''user'' 40 100 Map.empty 1),
                      (100, newAccount ''A'' ''user'' 15 100 Map.empty 2)],
         indexMap = [''B'' \<mapsto> 1, ''C'' \<mapsto> 2, ''D'' \<mapsto> 3, ''A'' \<mapsto> 4]\<rparr>,
      accountIndexer =
        \<lparr>highestTokenAccounts =
           [''user'' \<mapsto> [newAccount ''B'' ''user'' 20 100 Map.empty 1,
                          newAccount ''C'' ''user'' 30 100 Map.empty 1,
                          newAccount ''D'' ''user'' 40 100 Map.empty 1]],
         indexedAccounts =
           [((''A'', 1), newAccount ''A'' ''user'' 10 100 Map.empty 1),
            ((''B'', 1), newAccount ''B'' ''user'' 20 100 Map.empty 1),
            ((''C'', 1), newAccount ''C'' ''user'' 30 100 Map.empty 1),
            ((''D'', 1), newAccount ''D'' ''user'' 40 100 Map.empty 1),
            ((''A'', 2), newAccount ''A'' ''user'' 15 100 Map.empty 2)]\<rparr>\<rparr>"

lemma afterABCDA2_processed:
  "processAccountUpdates newAccountManager
     [(newAccount ''A'' ''user'' 10 100 Map.empty 1, 0, 0, 0),
      (newAccount ''B'' ''user'' 20 100 Map.empty 1, 0, 0, 0),
      (newAccount ''C'' ''user'' 30 100 Map.empty 1, 0, 0, 0),
      (newAccount ''D'' ''user'' 40 100 Map.empty 1, 0, 0, 0),
      (newAccount ''A'' ''user'' 15 100 Map.empty 2, 0, 0, 0)] = Inr afterABCDA2"
proof -
  have "processAccountUpdates afterABCD [(newAccount ''A'' ''user'' 15 100 Map.empty 2, 0, 0, 0)] =
      Inr afterABCDA2"
    by (simp add: afterABCD_def afterABCDA2_def ingest_eval queue_eval callback_eval heap_eval)
       (simp add: eval_nat_numeral)
  with processAccountUpdates_append[of newAccountManager
      "[(newAccount ''A'' ''user'' 10 100 Map.empty 1, 0, 0, 0),
        (newAccount ''B'' ''user'' 20 100 Map.empty 1, 0, 0, 0),
        (newAccount ''C'' ''user'' 30 100 Map.empty 1, 0, 0, 0),
        (newAccount ''D'' ''user'' 40 100 Map.empty 1, 0, 0, 0)]"
      "[(newAccount ''A'' ''user'' 15 100 Map.empty 2, 0, 0, 0)]"] afterABCD_processed
  show ?thesis by simp
qed

text \<open>
  Claim C1 (the code departs from it). The updates of the run above that carry the
  identifier \<open>A\<close>, all of one account type, have versions 1 and 2, and both are accepted.
  After the run the index holds two snapshots of \<open>A\<close>: the one of version 2 and, beside
  it, the older one of version 1, which the supersession should have removed. The entry
  to remove is looked for in the queue of the account type only, from which \<open>A\<close> had
  been evicted by the fourth update.
\<close>

theorem older_snapshot_stays_indexed:
  "processAccountUpdates newAccountManager
     [(newAccount ''A'' ''user'' 10 100 Map.empty 1, 0, 0, 0),
      (newAccount ''B'' ''user'' 20 100 Map.empty 1, 0, 0, 0),
      (newAccount ''C'' ''user'' 30 100 Map.empty 1, 0, 0, 0),
      (newAccount ''D'' ''user'' 40 100 Map.empty 1, 0, 0, 0),
      (newAccount ''A'' ''user'' 15 100 Map.empty 2, 0, 0, 0)] = Inr afterABCDA2 \<and>
   map_of (indexedAccounts (accountIndexer afterABCDA2)) (''A'', 1) =
     Some (newAccount ''A'' ''user'' 10 100 Map.empty 1) \<and>
   map_of (indexedAccounts (accountIndexer afterABCDA2)) (''A'', 2) =
     Some (newAccount ''A'' ''user'' 15 100 Map.empty 2) \<and>
   map fst (indexedAccounts (accountIndexer afterABCDA2)) =
     [(''A'', 1), (''B'', 1), (''C'', 1), (''D'', 1), (''A'', 2)]"
  using afterABCDA2_processed by (simp add: afterABCDA2_def)

text \<open>
  Where a run holds nothing but the updates of one identifier and one account type, there
  is no eviction and the index holds a single entry, an update of the sequence under its
  identifier and version, which no update of the sequence exceeds.
\<close>

lemma single_identifier_latest_snapshot:
  assumes "accountUpdates \<noteq> []"
    and "\<forall>u \<in> set accountUpdates. id_acc (fst u) = i \<and> accountType (fst u) = c"
    and "processAccountUpdates newAccountManager accountUpdates = Inr am"
  shows "\<exists>a \<in> fst ` set accountUpdates.
           indexedAccounts (accountIndexer am) = [((i, version a), a)] \<and>
           (\<forall>b \<in> fst ` set accountUpdates. version b \<le>s version a)"
proof -
  let ?U = "fst ` set accountUpdates"
  let ?L = "indexedAccounts (accountIndexer am)"
  have idb: "\<And>b. b \<in> ?U \<Longrightarrow> id_acc b = i" using assms(2) by auto
  from assms(1) obtain u where "u \<in> set accountUpdates" by (cases accountUpdates) auto
  then have "fst u \<in> ?U" by (rule imageI)
  with idb[of "fst u"] have "i \<in> id_acc ` ?U" by (metis imageI)
  moreover have "id_acc ` ?U \<subseteq> {i}" using idb by blast
  ultimately have ids: "id_acc ` ?U = {i}" by blast
  have ty: "\<And>b. b \<in> ?U \<Longrightarrow> accountType b = c" using assms(2) by auto
  have o: "oneType ?U" unfolding oneType_def
  proof (intro ballI impI)
    fix a b assume "a \<in> ?U" "b \<in> ?U"
    then show "accountType a = accountType b" using ty[of a] ty[of b] by simp
  qed
  have "card (id_acc ` ?U) \<le> 3" unfolding ids by simp
  then have f: "fewPerType ?U" by (intro fewPerType_small) simp_all
  have "synced ({} \<union> ?U) (highestTokenAccounts (accountIndexer am)) ?L"
    using assms(3) synced_initial _ _ o _ f
    by (rule processAccountUpdates_synced) simp_all
  then have s: "synced ?U (highestTokenAccounts (accountIndexer am)) ?L" by simp
  note l = synced_ledger[OF s o]
  have "set (map (fst \<circ> fst) ?L) = fst ` fst ` set ?L" by (simp add: image_comp)
  with l(2) ids have sk: "set (map (fst \<circ> fst) ?L) = {i}" by simp
  have "length ?L = length (map (fst \<circ> fst) ?L)" by simp
  also have "\<dots> = card (set (map (fst \<circ> fst) ?L))" using distinct_card[OF l(1)] by simp
  finally have "length ?L = 1" unfolding sk by simp
  then obtain e where e: "?L = [e]" by (cases ?L) auto
  then have "e \<in> set ?L" by simp
  from l(3)[rule_format, OF this] obtain a where a: "a \<in> ?U" "e = entryOf a"
    "\<forall>b \<in> ?U. id_acc b = id_acc a \<longrightarrow> version b \<le>s version a"
    by blast
  from a(2) idb[OF a(1)] have e': "e = ((i, version a), a)" by (simp add: entryOf_def)
  have "\<forall>b \<in> ?U. version b \<le>s version a"
  proof
    fix b assume b: "b \<in> ?U"
    from idb[OF b] idb[OF a(1)] have "id_acc b = id_acc a" by simp
    with a(3) b show "version b \<le>s version a" by blast
  qed
  with a(1) e e' show ?thesis by blast
qed

text \<open>Such a run: \<open>A\<close> arrives with versions 1, 3 and 2, in this order.\<close>

definition afterA132 :: AccountManager where
  "afterA132 =
     \<lparr>callbackManager =
        \<lparr>callbacks = [(100, newAccount ''A'' ''user'' 70 100 Map.empty 3)],
         indexMap = [''A'' \<mapsto> 0]\<rparr>,
      accountIndexer =
        \<lparr>highestTokenAccounts = [''user'' \<mapsto> [newAccount ''A'' ''user'' 70 100 Map.empty 3]],
         indexedAccounts = [((''A'', 3), newAccount ''A'' ''user'' 70 100 Map.empty 3)]\<rparr>\<rparr>"

lemma afterA132_processed:
  "processAccountUpdates newAccountManager
     [(newAccount ''A'' ''user'' 100 100 Map.empty 1, 0, 0, 0),
      (newAccount ''A'' ''user'' 70 100 Map.empty 3, 0, 0, 0),
      (newAccount ''A'' ''user'' 50 100 Map.empty 2, 0, 0, 0)] = Inr afterA132"
  by (simp add: afterA132_def ingest_eval queue_eval callback_eval heap_eval)

lemma single_identifier_latest_snapshot_instance:
  "processAccountUpdates newAccountManager
     [(newAccount ''A'' ''user'' 100 100 Map.empty 1, 0, 0, 0),
      (newAccount ''A'' ''user'' 70 100 Map.empty 3, 0, 0, 0),
      (newAccount ''A'' ''user'' 50 100 Map.empty 2, 0, 0, 0)] = Inr afterA132 \<and>
   indexedAccounts (accountIndexer afterA132) =
     [((''A'', 3), newAccount ''A'' ''user'' 70 100 Map.empty 3)]"
proof -
  let ?us = "[(newAccount ''A'' ''user'' 100 100 Map.empty 1, 0::int, 0::int32, 0::int),
      (newAccount ''A'' ''user'' 70 100 Map.empty 3, 0, 0, 0),
      (newAccount ''A'' ''user'' 50 100 Map.empty 2, 0, 0, 0)]"
  have "\<forall>u \<in> set ?us. id_acc (fst u) = ''A'' \<and> accountType (fst u) = ''user''" by simp
  from single_identifier_latest_snapshot [OF _ this afterA132_processed]
  obtain a where a: "a \<in> fst ` set ?us"
    "indexedAccounts (accountIndexer afterA132) = [((''A'', version a), a)]"
    "\<forall>b \<in> fst ` set ?us. version b \<le>s version a"
    by blast
  from a(3) have "3 \<le>s version a" by simp
  with a(1) have "a = newAccount ''A'' ''user'' 70 100 Map.empty 3"
    by (auto simp: word_sle_eq)
  with a(2) afterA132_processed show ?thesis by simp
qed

end
